theory Spec2Isabelle
  imports Main "HOL-Library.Sublist"
begin

section \<open>The purge engine of moist-bot (src/moist\_bot/cogs/purge.py)\<close>

text \<open>
  The theory embeds \<^verbatim>\<open>ChannelPurger\<close> and the parts of the \<^verbatim>\<open>Purge\<close> cog that drive
  it. Every remote call of the Python (\<^verbatim>\<open>msg.delete()\<close>, \<^verbatim>\<open>channel.delete_messages\<close>,
  \<^verbatim>\<open>channel.history\<close>, the replies of the context) becomes a step on an explicit
  environment: the state of the remote platform, of an arbitrary type \<open>'w\<close>, and the trace
  of the calls made so far. The platform itself is a parameter: a record of functions that
  answer each call and give the platform's next state.
\<close>

subsection \<open>Data model\<close>

type_synonym snowflake = int

text \<open>A \<^verbatim>\<open>datetime\<close>, in microseconds (its resolution) since the epoch.\<close>

type_synonym timestamp = int

record user =
  user_id :: snowflake
  display_name :: string
  bot :: bool

record message =
  msg_id :: snowflake
  author :: user
  created_at :: timestamp
  content :: string
  pinned :: bool

text \<open>
  The outcome of a delete call: it returns, or it raises \<^verbatim>\<open>discord.NotFound\<close>, or it raises
  another \<^verbatim>\<open>discord.HTTPException\<close> (\<^verbatim>\<open>NotFound\<close> is a subclass of \<^verbatim>\<open>HTTPException\<close>).
\<close>

datatype resp = Ok | NotFound | HTTPError

text \<open>What the code sends out, in the order it does.\<close>

datatype event =
    DeleteCall message resp
  | BatchCall "message list" resp
  | HistoryCall int "snowflake option" "snowflake option"
  | Prompt string
  | Reply string
  | Defer
  | Send string
  | SendEmbed string "string option"

record 'w remote =
  msg_delete :: "message \<Rightarrow> 'w \<Rightarrow> resp \<times> 'w"
  delete_messages :: "message list \<Rightarrow> 'w \<Rightarrow> resp \<times> 'w"
  history :: "'w \<Rightarrow> snowflake option \<Rightarrow> snowflake option \<Rightarrow> message list"

record 'w env =
  world :: 'w
  trace :: "event list"

text \<open>\<^verbatim>\<open>ChannelPurger\<close>: the fields of the object after the environment it acts on.\<close>

record 'w purger = "'w env" +
  before :: "snowflake option"
  after :: "snowflake option"
  deleted :: "message list"

text \<open>\<^verbatim>\<open>BULK_DELETE_LIMIT = datetime.timedelta(days=14)\<close>\<close>

definition BULK_DELETE_LIMIT :: timestamp where
  "BULK_DELETE_LIMIT = 14 * 86400 * 1000000"

text \<open>\<^verbatim>\<open>ChannelPurger.__init__\<close>\<close>

definition ChannelPurger :: "('w, 'x) env_scheme \<Rightarrow> snowflake option \<Rightarrow> snowflake option \<Rightarrow> 'w purger" where
  "ChannelPurger e b a =
     \<lparr>world = world e, trace = trace e, before = b, after = a, deleted = []\<rparr>"

subsection \<open>Remote calls\<close>

text \<open>\<^verbatim>\<open>await msg.delete()\<close>: the platform answers and moves on; the call is traced.\<close>

definition await_delete ::
  "'w remote \<Rightarrow> message \<Rightarrow> ('w, 'x) env_scheme \<Rightarrow> resp \<times> ('w, 'x) env_scheme" where
  "await_delete R msg s =
     (case msg_delete R msg (world s) of
        (r, w) \<Rightarrow> (r, s\<lparr>world := w, trace := trace s @ [DeleteCall msg r]\<rparr>))"

text \<open>\<^verbatim>\<open>await self.channel.delete_messages(chunk)\<close>\<close>

definition await_delete_messages ::
  "'w remote \<Rightarrow> message list \<Rightarrow> ('w, 'x) env_scheme \<Rightarrow> resp \<times> ('w, 'x) env_scheme" where
  "await_delete_messages R chunk s =
     (case delete_messages R chunk (world s) of
        (r, w) \<Rightarrow> (r, s\<lparr>world := w, trace := trace s @ [BatchCall chunk r]\<rparr>))"

subsection \<open>The individual deleter\<close>

text \<open>
  \<^verbatim>\<open>ChannelPurger._delete_single\<close>: \<^verbatim>\<open>NotFound\<close> is passed over, another
  \<^verbatim>\<open>HTTPException\<close> returns \<^verbatim>\<open>False\<close> before the append.
\<close>

definition delete_single :: "'w remote \<Rightarrow> message \<Rightarrow> 'w purger \<Rightarrow> bool \<times> 'w purger" where
  "delete_single R msg s =
     (case await_delete R msg s of
        (HTTPError, s1) \<Rightarrow> (False, s1)
      | (_, s1) \<Rightarrow> (True, s1\<lparr>deleted := deleted s1 @ [msg]\<rparr>))"

text \<open>
  The loop \<^verbatim>\<open>for msg in msgs: if not await self._delete_single(msg): <leave>\<close>, which
  the source has twice: over a chunk in \<^verbatim>\<open>_bulk_delete\<close> (where leaving is \<^verbatim>\<open>return\<close>)
  and over \<^verbatim>\<open>old_msgs\<close> in \<^verbatim>\<open>purge\<close> (where it is \<^verbatim>\<open>break\<close>). The Boolean says
  whether the loop ran to its end.
\<close>

fun delete_each :: "'w remote \<Rightarrow> message list \<Rightarrow> 'w purger \<Rightarrow> bool \<times> 'w purger" where
  "delete_each R [] s = (True, s)"
| "delete_each R (msg # msgs) s =
     (case delete_single R msg s of
        (False, s1) \<Rightarrow> (False, s1)
      | (True, s1) \<Rightarrow> delete_each R msgs s1)"

subsection \<open>The batch deleter\<close>

text \<open>
  The body of the loop of \<^verbatim>\<open>_bulk_delete\<close> for one chunk: the \<^verbatim>\<open>try\<close> block, then
  either the \<^verbatim>\<open>extend\<close> or the handler of \<^verbatim>\<open>discord.HTTPException\<close>. The Boolean is
  \<^verbatim>\<open>False\<close> when the handler left the method by \<^verbatim>\<open>return\<close>.
\<close>

definition bulk_chunk :: "'w remote \<Rightarrow> message list \<Rightarrow> 'w purger \<Rightarrow> bool \<times> 'w purger" where
  "bulk_chunk R chunk s =
     (case (if length chunk = 1 then await_delete R (chunk ! 0) s
            else await_delete_messages R chunk s) of
        (Ok, s1) \<Rightarrow> (True, s1\<lparr>deleted := deleted s1 @ chunk\<rparr>)
      | (_, s1) \<Rightarrow> delete_each R chunk s1)"

text \<open>
  \<^verbatim>\<open>for i in range(0, len(messages), 100): chunk = messages[i : i + 100]\<close>. The method
  returns \<^verbatim>\<open>None\<close> on both of its exits; the Boolean of the model records which one was
  taken (\<^verbatim>\<open>False\<close>: the \<^verbatim>\<open>return\<close> of the handler), and \<open>purge\<close> drops it.
\<close>

function bulk_from :: "'w remote \<Rightarrow> message list \<Rightarrow> nat \<Rightarrow> 'w purger \<Rightarrow> bool \<times> 'w purger" where
  "bulk_from R messages i s =
     (if i < length messages then
        (case bulk_chunk R (take 100 (drop i messages)) s of
           (True, s1) \<Rightarrow> bulk_from R messages (i + 100) s1
         | (False, s1) \<Rightarrow> (False, s1))
      else (True, s))"
  by pat_completeness auto
termination
  by (relation "measure (\<lambda>(R, messages, i, s). length messages - i)") auto

declare bulk_from.simps [simp del]

definition bulk_delete :: "'w remote \<Rightarrow> message list \<Rightarrow> 'w purger \<Rightarrow> bool \<times> 'w purger" where
  "bulk_delete R messages s = bulk_from R messages 0 s"

subsection \<open>Scanning and the purge\<close>

text \<open>
  The \<^verbatim>\<open>async for\<close> of \<^verbatim>\<open>purge\<close> over the messages the history yields: the matches
  so far, and the number of messages taken from the iterator.
\<close>

fun scan ::
  "(message \<Rightarrow> bool) \<Rightarrow> int \<Rightarrow> message list \<Rightarrow> message list \<Rightarrow> nat \<Rightarrow> message list \<times> nat" where
  "scan check limit [] messages n = (messages, n)"
| "scan check limit (m # hist) messages n =
     (if check m then
        (let messages1 = messages @ [m] in
         if int (length messages1) \<ge> limit then (messages1, Suc n)
         else scan check limit hist messages1 (Suc n))
      else scan check limit hist messages (Suc n))"

text \<open>
  \<^verbatim>\<open>channel.history(limit=scan_limit, ...)\<close> yields at most \<^verbatim>\<open>scan_limit\<close> messages, and
  none when \<^verbatim>\<open>scan_limit\<close> is below one.
\<close>

definition collect ::
  "'w remote \<Rightarrow> int \<Rightarrow> (message \<Rightarrow> bool) \<Rightarrow> 'w purger \<Rightarrow> message list \<times> nat" where
  "collect R limit check s =
     (let scan_limit = min (limit * 5) 5000
      in scan check limit
           (take (nat scan_limit) (history R (world s) (before s) (after s))) [] 0)"

text \<open>
  The two list comprehensions of \<^verbatim>\<open>purge\<close>, \<^verbatim>\<open>bulk_msgs\<close> and \<^verbatim>\<open>old_msgs\<close>, as functions
  of the cutoff and the matches.
\<close>

definition bulk_msgs :: "timestamp \<Rightarrow> message list \<Rightarrow> message list" where
  "bulk_msgs bulk_cutoff messages = [m \<leftarrow> messages. created_at m > bulk_cutoff]"

definition old_msgs :: "timestamp \<Rightarrow> message list \<Rightarrow> message list" where
  "old_msgs bulk_cutoff messages = [m \<leftarrow> messages. created_at m \<le> bulk_cutoff]"

text \<open>
  \<^verbatim>\<open>ChannelPurger.purge\<close>; \<open>now\<close> is what \<^verbatim>\<open>discord.utils.utcnow()\<close> returns. The method
  returns \<^verbatim>\<open>self.deleted\<close>: the field \<open>deleted\<close> of the result.
\<close>

definition purge ::
  "'w remote \<Rightarrow> timestamp \<Rightarrow> int \<Rightarrow> (message \<Rightarrow> bool) \<Rightarrow> 'w purger \<Rightarrow> 'w purger" where
  "purge R now limit check s =
     (let bulk_cutoff = now - BULK_DELETE_LIMIT;
          scan_limit = min (limit * 5) 5000;
          messages = fst (collect R limit check s);
          s0 = s\<lparr>trace := trace s @ [HistoryCall scan_limit (before s) (after s)]\<rparr>
      in if messages = [] then s0
         else
           (let s1 = snd (bulk_delete R (bulk_msgs bulk_cutoff messages) s0)
            in snd (delete_each R (old_msgs bulk_cutoff messages) s1)))"

subsection \<open>The cog: preparation, validation and the report\<close>

text \<open>
  \<^verbatim>\<open>PurgeFlags\<close>. \<^verbatim>\<open>get_before\<close> and \<^verbatim>\<open>get_after\<close> test the truth of the identity, so
  an identity of zero counts as absent.
\<close>

record flags =
  flag_before :: "snowflake option"
  flag_after :: "snowflake option"

fun truthy_id :: "snowflake option \<Rightarrow> snowflake option" where
  "truthy_id None = None"
| "truthy_id (Some i) = (if i = 0 then None else Some i)"

definition get_before :: "flags \<Rightarrow> snowflake option" where
  "get_before fl = truthy_id (flag_before fl)"

definition get_after :: "flags \<Rightarrow> snowflake option" where
  "get_after fl = truthy_id (flag_after fl)"

text \<open>
  What the code reads of the invocation context: whether it is an interaction, whether the
  interaction was answered already, and the invoking message.
\<close>

record ctx =
  interaction :: bool
  response_done :: bool
  ctx_message :: message

text \<open>\<^verbatim>\<open>a or b\<close> for objects that are \<^verbatim>\<open>None\<close> or true (messages, \<^verbatim>\<open>discord.Object\<close>).\<close>

fun py_or :: "'a option \<Rightarrow> 'a option \<Rightarrow> 'a option" where
  "py_or None b = b"
| "py_or (Some a) b = Some a"

text \<open>\<^verbatim>\<open>Purge._prepare\<close>: the \<^verbatim>\<open>HTTPException\<close> of the delete is swallowed.\<close>

definition prepare :: "'w remote \<Rightarrow> ctx \<Rightarrow> ('w, 'x) env_scheme \<Rightarrow> ('w, 'x) env_scheme" where
  "prepare R c e =
     (if interaction c then
        (if \<not> response_done c then e\<lparr>trace := trace e @ [Defer]\<rparr> else e)
      else snd (await_delete R (ctx_message c) e))"

text \<open>\<^verbatim>\<open>Purge._make_purger\<close>\<close>

definition make_purger ::
  "('w, 'x) env_scheme \<Rightarrow> ctx \<Rightarrow> flags option \<Rightarrow> snowflake option \<Rightarrow> snowflake option \<Rightarrow> 'w purger" where
  "make_purger e c fl bef aft =
     (let bef1 = (case fl of None \<Rightarrow> bef | Some f \<Rightarrow> py_or bef (get_before f));
          aft1 = (case fl of None \<Rightarrow> aft | Some f \<Rightarrow> py_or aft (get_after f))
      in ChannelPurger e (py_or bef1 (Some (msg_id (ctx_message c)))) aft1)"

text \<open>\<^verbatim>\<open>str\<close> of an integer.\<close>

definition digit_char :: "nat \<Rightarrow> char" where
  "digit_char d = char_of (48 + d)"

function str_nat :: "nat \<Rightarrow> string" where
  "str_nat n = (if n < 10 then [digit_char n] else str_nat (n div 10) @ [digit_char (n mod 10)])"
  by pat_completeness auto
termination
  by (relation "measure id") auto

declare str_nat.simps [simp del]

definition str_int :: "int \<Rightarrow> string" where
  "str_int i = (if i < 0 then CHR ''-'' # str_nat (nat (- i)) else str_nat (nat i))"

text \<open>\<^verbatim>\<open>sep.join(xs)\<close>\<close>

fun join :: "string \<Rightarrow> string list \<Rightarrow> string" where
  "join sep [] = []"
| "join sep [x] = x"
| "join sep (x # y # xs) = x @ sep @ join sep (y # xs)"

text \<open>
  A \<^verbatim>\<open>dict[str, int]\<close> keeps its keys in insertion order: an association list with each
  key once. \<^verbatim>\<open>authors[name] = authors.get(name, 0) + 1\<close> updates a key where it stands and
  puts a new key last.
\<close>

fun bump :: "(string \<times> int) list \<Rightarrow> string \<Rightarrow> (string \<times> int) list" where
  "bump [] name = [(name, 0 + 1)]"
| "bump ((k, n) # d) name =
     (if k = name then (k, n + 1) # d else (k, n) # bump d name)"

text \<open>\<^verbatim>\<open>for msg in deleted: name = msg.author.display_name; authors[name] = ...\<close>\<close>

fun count_authors :: "(string \<times> int) list \<Rightarrow> message list \<Rightarrow> (string \<times> int) list" where
  "count_authors authors [] = authors"
| "count_authors authors (msg # msgs) =
     count_authors (bump authors (display_name (author msg))) msgs"

text \<open>
  \<^verbatim>\<open>sorted(authors.items(), key=operator.itemgetter(1), reverse=True)\<close>. Python's sort is
  stable, also with \<^verbatim>\<open>reverse=True\<close>: items of equal key keep their order. On integer keys
  that is the stable ascending sort on the negated key.
\<close>

definition sorted_desc :: "(string \<times> int) list \<Rightarrow> (string \<times> int) list" where
  "sorted_desc items = sort_key (\<lambda>item. - snd item) items"

text \<open>\<^verbatim>\<open>f'**{name}**: {n}'\<close>\<close>

definition render_entry :: "string \<times> int \<Rightarrow> string" where
  "render_entry item = ''**'' @ fst item @ ''**: '' @ str_int (snd item)"

definition newline :: string where
  "newline = [CHR 0x0A]"

text \<open>The string \<^verbatim>\<open>breakdown\<close> of \<^verbatim>\<open>_send_result\<close>, from the counts.\<close>

definition breakdown_of :: "(string \<times> int) list \<Rightarrow> string" where
  "breakdown_of authors =
     (let sorted_authors = sorted_desc authors;
          breakdown = join newline (map render_entry (take 10 sorted_authors))
      in if length sorted_authors > 10
         then breakdown @ newline @ ''*...and '' @ str_int (int (length sorted_authors) - 10) @ '' more*''
         else breakdown)"

text \<open>
  \<^verbatim>\<open>Purge._send_result\<close>. The module \<^verbatim>\<open>moist_bot.utils.formats\<close> is not part of the sources
  at hand, so the text \<^verbatim>\<open>f'{plural(count):message}'\<close> is the parameter \<open>plural_message\<close>.
\<close>

definition send_result ::
  "(nat \<Rightarrow> string) \<Rightarrow> message list \<Rightarrow> ('w, 'x) env_scheme \<Rightarrow> ('w, 'x) env_scheme" where
  "send_result plural_message dl e =
     (let count = length dl in
      if count = 0 then
        e\<lparr>trace := trace e @ [Send '':warning: No messages found matching the criteria.'']\<rparr>
      else
        (let authors = count_authors [] dl;
             breakdown = breakdown_of authors;
             description = ''Successfully removed **'' @ plural_message count @ ''**.''
         in e\<lparr>trace := trace e @
              [SendEmbed description (if breakdown \<noteq> [] then Some breakdown else None)]\<rparr>))"

text \<open>
  \<^verbatim>\<open>Purge._validate_and_purge\<close>. \<open>answer\<close> is what \<^verbatim>\<open>ctx.prompt\<close> returns when it is
  called: \<^verbatim>\<open>True\<close>, \<^verbatim>\<open>False\<close>, or \<^verbatim>\<open>None\<close> after its timeout.
\<close>

definition validate_and_purge ::
  "'w remote \<Rightarrow> (nat \<Rightarrow> string) \<Rightarrow> timestamp \<Rightarrow> bool option \<Rightarrow> ctx \<Rightarrow> int \<Rightarrow> (message \<Rightarrow> bool) \<Rightarrow>
   flags option \<Rightarrow> snowflake option \<Rightarrow> snowflake option \<Rightarrow> int \<Rightarrow> 'w env \<Rightarrow> 'w env" where
  "validate_and_purge R plural_message now answer c limit check fl bef aft confirm_threshold e =
     (if limit < 1 \<or> limit > 2000 then
        e\<lparr>trace := trace e @ [Reply '':warning: Limit must be between 1 and 2000.'']\<rparr>
      else
        (let e1 = (if limit > confirm_threshold
                   then e\<lparr>trace := trace e @
                          [Prompt (''Are you sure you want to purge up to **'' @ str_int limit @ ''** messages?'')]\<rparr>
                   else e)
         in if limit > confirm_threshold \<and> answer \<noteq> Some True then
              e1\<lparr>trace := trace e1 @ [Reply '':no_entry: Cancelled.'']\<rparr>
            else
              (let e2 = prepare R c e1;
                   purger = make_purger e2 c fl bef aft;
                   p = purge R now limit check purger
               in send_result plural_message (deleted p) (env.truncate p))))"

section \<open>Reference definitions and scenarios\<close>

subsection \<open>The chunks, as a list\<close>

text \<open>
  The slices \<^verbatim>\<open>messages[i : i + 100]\<close> for \<^verbatim>\<open>i\<close> in \<^verbatim>\<open>range(0, len(messages), 100)\<close>,
  written as one list, and the batch deleter as a run over a list of chunks. Both are
  reference definitions: \<open>bulk_delete\<close> above is the loop of the source, and the two are
  proved equal below.
\<close>

definition spec_chunks :: "'a list \<Rightarrow> 'a list list" where
  "spec_chunks xs = map (\<lambda>j. take 100 (drop (100 * j) xs)) [0 ..< (length xs + 99) div 100]"

fun bulk_chunks :: "'w remote \<Rightarrow> message list list \<Rightarrow> 'w purger \<Rightarrow> bool \<times> 'w purger" where
  "bulk_chunks R [] s = (True, s)"
| "bulk_chunks R (c # cs) s =
     (case bulk_chunk R c s of
        (True, s1) \<Rightarrow> bulk_chunks R cs s1
      | (False, s1) \<Rightarrow> (False, s1))"

subsection \<open>Concrete platforms for the scenarios\<close>

definition mk_user :: "snowflake \<Rightarrow> string \<Rightarrow> user" where
  "mk_user i name = \<lparr>user_id = i, display_name = name, bot = False\<rparr>"

definition mk_msg :: "snowflake \<Rightarrow> user \<Rightarrow> timestamp \<Rightarrow> message" where
  "mk_msg i u t = \<lparr>msg_id = i, author = u, created_at = t, content = [], pinned = False\<rparr>"

text \<open>
  A platform whose answers are scripted by message identity; its state counts the delete
  calls it has answered, and its history is a fixed list.
\<close>

definition scripted ::
  "(snowflake \<Rightarrow> resp) \<Rightarrow> (message list \<Rightarrow> resp) \<Rightarrow> message list \<Rightarrow> nat remote" where
  "scripted d b hist =
     \<lparr>msg_delete = (\<lambda>m w. (d (msg_id m), Suc w)),
      delete_messages = (\<lambda>c w. (b c, Suc w)),
      history = (\<lambda>w bef aft. hist)\<rparr>"

definition fresh :: "nat purger" where
  "fresh = ChannelPurger \<lparr>world = 0, trace = []\<rparr> None None"

definition day :: timestamp where
  "day = 86400 * 1000000"

text \<open>Ten messages of one author, all created at time zero.\<close>

definition ten_msgs :: "message list" where
  "ten_msgs = map (\<lambda>i. mk_msg i (mk_user 7 ''ann'') 0) [1, 2, 3, 4, 5, 6, 7, 8, 9, 10]"

text \<open>The ninth delete fails hard, the third finds its message gone.\<close>

definition ninth_fails :: "nat remote" where
  "ninth_fails =
     scripted (\<lambda>i. if i = 9 then HTTPError else if i = 3 then NotFound else Ok) (\<lambda>c. Ok) ten_msgs"

text \<open>Messages numbered from zero, of one author, all created at the same time.\<close>

definition numbered :: "nat \<Rightarrow> timestamp \<Rightarrow> message list" where
  "numbered n t = map (\<lambda>i. mk_msg (int i) (mk_user 7 ''ann'') t) [0 ..< n]"

text \<open>A platform on which every delete call succeeds.\<close>

definition all_ok :: "message list \<Rightarrow> nat remote" where
  "all_ok hist = scripted (\<lambda>i. Ok) (\<lambda>c. Ok) hist"

subsection \<open>The first call of a chunk\<close>

text \<open>
  Names for the parts of the \<^verbatim>\<open>try\<close> block of \<^verbatim>\<open>_bulk_delete\<close>: the call it makes for a
  chunk in a given state of the platform, the answer to that call, and the purger once the
  call has been answered.
\<close>

definition first_call :: "'w remote \<Rightarrow> message list \<Rightarrow> 'w \<Rightarrow> event" where
  "first_call R c w =
     (if length c = 1 then DeleteCall (c ! 0) (fst (msg_delete R (c ! 0) w))
      else BatchCall c (fst (delete_messages R c w)))"

definition first_resp :: "'w remote \<Rightarrow> message list \<Rightarrow> 'w \<Rightarrow> resp" where
  "first_resp R c w =
     (if length c = 1 then fst (msg_delete R (c ! 0) w) else fst (delete_messages R c w))"

definition after_first :: "'w remote \<Rightarrow> message list \<Rightarrow> 'w purger \<Rightarrow> 'w purger" where
  "after_first R c s =
     s\<lparr>world := (if length c = 1 then snd (msg_delete R (c ! 0) (world s))
                  else snd (delete_messages R c (world s))),
       trace := trace s @ [first_call R c (world s)]\<rparr>"

text \<open>A platform on which every delete call fails hard.\<close>

definition all_fail :: "message list \<Rightarrow> nat remote" where
  "all_fail hist = scripted (\<lambda>i. HTTPError) (\<lambda>c. HTTPError) hist"

text \<open>Every batch call fails, and so does the single delete of message 2.\<close>

definition second_fails :: "nat remote" where
  "second_fails = scripted (\<lambda>i. if i = 2 then HTTPError else Ok) (\<lambda>c. HTTPError) []"

text \<open>Two messages created on day 15 and two created at time zero.\<close>

definition mixed_msgs :: "message list" where
  "mixed_msgs =
     [mk_msg 1 (mk_user 7 ''ann'') (15 * day), mk_msg 2 (mk_user 7 ''ann'') (15 * day),
      mk_msg 3 (mk_user 8 ''bob'') 0, mk_msg 4 (mk_user 8 ''bob'') 0]"

text \<open>Every batch call fails, and the single delete of message 1 fails hard.\<close>

definition bulk_aborts :: "nat remote" where
  "bulk_aborts = scripted (\<lambda>i. if i = 1 then HTTPError else Ok) (\<lambda>c. HTTPError) mixed_msgs"

text \<open>On day 20 the cutoff is day 6: messages just after, at, and just before it, and a recent one.\<close>

definition boundary_msgs :: "message list" where
  "boundary_msgs =
     [mk_msg 1 (mk_user 7 ''ann'') (6 * day + 1), mk_msg 2 (mk_user 7 ''ann'') (6 * day),
      mk_msg 3 (mk_user 8 ''bob'') (6 * day - 1), mk_msg 4 (mk_user 8 ''bob'') (7 * day)]"

text \<open>Every batch call fails, and so does the single delete of message 2; the history is \<open>mixed_msgs\<close>.\<close>

definition second_fails_mixed :: "nat remote" where
  "second_fails_mixed =
     scripted (\<lambda>i. if i = 2 then HTTPError else Ok) (\<lambda>c. HTTPError) mixed_msgs"

text \<open>
  Reading the outcome off the trace. A call names the messages it is to delete, and its
  answer acknowledges them: a batch call all of its messages when it returns, a single
  delete its message when it returns or raises not-found (the message is already gone).
\<close>

fun targets :: "event \<Rightarrow> message list" where
  "targets (DeleteCall m r) = [m]"
| "targets (BatchCall c r) = c"
| "targets _ = []"

text \<open>The messages whose deletion the answer to a call acknowledges.\<close>

fun acks :: "event \<Rightarrow> message list" where
  "acks (DeleteCall m r) = (if r = HTTPError then [] else [m])"
| "acks (BatchCall c r) = (if r = Ok then c else [])"
| "acks _ = []"

text \<open>The messages that the calls of a trace name.\<close>

definition named :: "event list \<Rightarrow> message set" where
  "named es = set (concat (map targets es))"

text \<open>
  The completed deletions of a trace, in the order of the calls that completed them. The
  call that completes the deletion of a message is the last call that names it: a message
  named again later was retried (after a failed batch call each message is deleted on its
  own, and the one message of a one-message chunk is deleted a second time when its first
  delete raised), and the retry decides.
\<close>

fun completed :: "event list \<Rightarrow> message list" where
  "completed [] = []"
| "completed (e # es) = filter (\<lambda>m. m \<notin> named es) (acks e) @ completed es"

text \<open>An invocation by a text command: no interaction, the invoking message has identity 99.\<close>

definition invoking :: ctx where
  "invoking = \<lparr>interaction = False, response_done = False,
               ctx_message = mk_msg 99 (mk_user 1 ''mod'') (20 * day)\<rparr>"








section \<open>Properties\<close>

subsection \<open>The individual deleter\<close>

lemma delete_single_eq:
  "delete_single R m s =
     (let r = fst (msg_delete R m (world s)); w = snd (msg_delete R m (world s));
          s1 = s\<lparr>world := w, trace := trace s @ [DeleteCall m r]\<rparr>
      in if r = HTTPError then (False, s1) else (True, s1\<lparr>deleted := deleted s @ [m]\<rparr>))"
  by (cases "msg_delete R m (world s)")
     (auto simp: delete_single_def await_delete_def Let_def split: resp.splits)

text \<open>
  The shape of every run of the loop: the first \<open>k\<close> messages are deleted, each with an
  answer that is not a hard failure; when the loop was left early the next call failed
  hard and is the last one.
\<close>

lemma delete_each_shape:
  "delete_each R ms s = (ok, s') \<Longrightarrow>
     \<exists>k rs. k \<le> length ms \<and> length rs = k \<and> HTTPError \<notin> set rs \<and>
       deleted s' = deleted s @ take k ms \<and>
       trace s' = trace s @ map2 DeleteCall (take k ms) rs @
                    (if ok then [] else [DeleteCall (ms ! k) HTTPError]) \<and>
       (ok \<longleftrightarrow> k = length ms) \<and> before s' = before s \<and> after s' = after s"
proof (induction ms arbitrary: s)
  case Nil
  then show ?case by auto
next
  case (Cons m ms)
  let ?r = "fst (msg_delete R m (world s))"
  let ?w = "snd (msg_delete R m (world s))"
  let ?s1 = "s\<lparr>world := ?w, trace := trace s @ [DeleteCall m ?r]\<rparr>"
  show ?case
  proof (cases "?r = HTTPError")
    case True
    with Cons.prems have "ok = False" "s' = ?s1"
      by (auto simp: delete_single_eq Let_def)
    with True show ?thesis
      by (intro exI[of _ 0] exI[of _ "[]"]) simp
  next
    case False
    let ?s2 = "?s1\<lparr>deleted := deleted s @ [m]\<rparr>"
    from False Cons.prems have "delete_each R ms ?s2 = (ok, s')"
      by (auto simp: delete_single_eq Let_def)
    from Cons.IH[OF this] obtain k rs where
      k: "k \<le> length ms" "length rs = k" "HTTPError \<notin> set rs"
        "deleted s' = deleted ?s2 @ take k ms"
        "trace s' = trace ?s2 @ map2 DeleteCall (take k ms) rs @
                    (if ok then [] else [DeleteCall (ms ! k) HTTPError])"
        "ok \<longleftrightarrow> k = length ms" "before s' = before ?s2" "after s' = after ?s2"
      by blast
    with False show ?thesis
      by (intro exI[of _ "Suc k"] exI[of _ "?r # rs"]) simp
  qed
qed

lemma bulk_delete_Nil: "bulk_delete R [] s = (True, s)"
  by (simp add: bulk_delete_def bulk_from.simps)

lemma filter_old_all:
  "\<forall>m\<in>set msgs. created_at m \<le> c \<Longrightarrow> bulk_msgs c msgs = [] \<and> old_msgs c msgs = msgs"
  unfolding bulk_msgs_def old_msgs_def by (induction msgs) auto

text \<open>
  Claim C4. When every matched message is at or before the cutoff, the purge is the
  individual deleter alone: after the history call, the trace is one delete call per
  message in scan order; the first \<open>k\<close> calls were answered with success or not-found and
  exactly those \<open>k\<close> messages are appended to the outcome, in order; if a message is left
  (\<open>k\<close> below the number of matches), the next call failed hard, its message is not
  appended, and it is the last call of the run. In particular, with ten matches of which
  the ninth delete call fails hard, the outcome is the first eight messages and the run
  made nine delete calls: the tenth message is never attempted.
\<close>

theorem individual_deleter_outcome:
  assumes "fst (collect R limit check s) = msgs"
      and "\<forall>m\<in>set msgs. created_at m \<le> now - BULK_DELETE_LIMIT"
      and "s' = purge R now limit check s"
  shows "(\<exists>k rs. k \<le> length msgs \<and> length rs = k \<and> HTTPError \<notin> set rs \<and>
           deleted s' = deleted s @ take k msgs \<and>
           trace s' = trace s @ HistoryCall (min (limit * 5) 5000) (before s) (after s) #
             map2 DeleteCall (take k msgs) rs @
             (if k < length msgs then [DeleteCall (msgs ! k) HTTPError] else []))
       \<and> (length msgs = 10 \<and> length (trace s) + 10 \<le> length (trace s') \<and>
           (\<exists>m. trace s' ! (length (trace s) + 9) = DeleteCall m HTTPError)
          \<longrightarrow> deleted s' = deleted s @ take 8 msgs \<and> length (trace s') = length (trace s) + 10)"
proof -
  let ?s0 = "s\<lparr>trace := trace s @ [HistoryCall (min (limit * 5) 5000) (before s) (after s)]\<rparr>"
  obtain ok where run: "delete_each R msgs ?s0 = (ok, s')"
  proof (cases "msgs = []")
    case True
    with assms have "s' = ?s0" by (simp add: purge_def Let_def)
    with True that show ?thesis by simp
  next
    case False
    with assms filter_old_all[OF assms(2)] have "s' = snd (delete_each R msgs ?s0)"
      by (simp add: purge_def Let_def bulk_delete_Nil)
    with that show ?thesis by (cases "delete_each R msgs ?s0") simp
  qed
  from delete_each_shape[OF run] obtain k rs where
    k: "k \<le> length msgs" "length rs = k" "HTTPError \<notin> set rs"
       "deleted s' = deleted s @ take k msgs"
       "trace s' = trace s @ HistoryCall (min (limit * 5) 5000) (before s) (after s) #
             map2 DeleteCall (take k msgs) rs @
             (if ok then [] else [DeleteCall (msgs ! k) HTTPError])"
       "ok \<longleftrightarrow> k = length msgs"
    by auto
  have tail: "(if ok then [] else [DeleteCall (msgs ! k) HTTPError]) =
              (if k < length msgs then [DeleteCall (msgs ! k) HTTPError] else [])"
    using k(1,6) by auto
  have first: "\<exists>k rs. k \<le> length msgs \<and> length rs = k \<and> HTTPError \<notin> set rs \<and>
           deleted s' = deleted s @ take k msgs \<and>
           trace s' = trace s @ HistoryCall (min (limit * 5) 5000) (before s) (after s) #
             map2 DeleteCall (take k msgs) rs @
             (if k < length msgs then [DeleteCall (msgs ! k) HTTPError] else [])"
    using k(1-5) unfolding tail by blast
  have second: "deleted s' = deleted s @ take 8 msgs \<and> length (trace s') = length (trace s) + 10"
    if len: "length msgs = 10" and long: "length (trace s) + 10 \<le> length (trace s')"
      and hard: "\<exists>m. trace s' ! (length (trace s) + 9) = DeleteCall m HTTPError"
  proof -
    let ?L = "map2 DeleteCall (take k msgs) rs @ (if ok then [] else [DeleteCall (msgs ! k) HTTPError])"
    have tr: "trace s' = (trace s @ [HistoryCall (min (limit * 5) 5000) (before s) (after s)]) @ ?L"
      using k(5) by simp
    have lenL: "length ?L = (if ok then k else Suc k)"
      using k(1,2) by simp
    from long tr have "9 \<le> length ?L" by simp
    with lenL k(1,6) len have k8: "8 \<le> k" by (auto split: if_splits)
    from hard obtain m where "trace s' ! (length (trace s) + 9) = DeleteCall m HTTPError" ..
    then have L8: "?L ! 8 = DeleteCall m HTTPError"
      unfolding tr by (simp add: nth_append)
    have "k = 8"
    proof (rule ccontr)
      assume "k \<noteq> 8"
      with k8 have "8 < k" by simp
      then have "?L ! 8 = DeleteCall (msgs ! 8) (rs ! 8)"
        using k(1,2) by (simp add: nth_append)
      with L8 have "rs ! 8 = HTTPError" by simp
      moreover have "rs ! 8 \<in> set rs" using \<open>8 < k\<close> k(2) by simp
      ultimately show False using k(3) by simp
    qed
    with k(4,6) len lenL tr show ?thesis by simp
  qed
  from first second show ?thesis by blast
qed

text \<open>
  The scenario of the claim, run: ten messages twenty days old, the ninth delete fails hard
  (and the third answers not-found, which counts as deleted).
\<close>

theorem individual_deleter_outcome_witness:
  "deleted (purge ninth_fails (20 * day) 10 (\<lambda>_. True) fresh) = take 8 ten_msgs \<and>
   length (trace (purge ninth_fails (20 * day) 10 (\<lambda>_. True) fresh)) = 10 \<and>
   trace (purge ninth_fails (20 * day) 10 (\<lambda>_. True) fresh) ! 3 = DeleteCall (ten_msgs ! 2) NotFound \<and>
   trace (purge ninth_fails (20 * day) 10 (\<lambda>_. True) fresh) ! 9 = DeleteCall (ten_msgs ! 8) HTTPError"
proof -
  let ?s' = "purge ninth_fails (20 * day) 10 (\<lambda>_. True) fresh"
  have h1: "fst (collect ninth_fails 10 (\<lambda>_. True) fresh) = ten_msgs"
    by (simp add: collect_def ninth_fails_def scripted_def fresh_def ChannelPurger_def ten_msgs_def)
  have h2: "\<forall>m\<in>set ten_msgs. created_at m \<le> 20 * day - BULK_DELETE_LIMIT"
    by (simp add: ten_msgs_def mk_msg_def day_def BULK_DELETE_LIMIT_def)
  have tr: "trace ?s' =
      HistoryCall 50 None None #
      map2 DeleteCall (take 9 ten_msgs) [Ok, Ok, NotFound, Ok, Ok, Ok, Ok, Ok, HTTPError]"
    by (simp add: purge_def collect_def ninth_fails_def scripted_def fresh_def ChannelPurger_def
        ten_msgs_def day_def BULK_DELETE_LIMIT_def bulk_delete_Nil delete_single_def
        await_delete_def mk_msg_def bulk_msgs_def old_msgs_def Let_def)
  have h3: "length ten_msgs = 10 \<and> length (trace fresh) + 10 \<le> length (trace ?s') \<and>
      (\<exists>m. trace ?s' ! (length (trace fresh) + 9) = DeleteCall m HTTPError)"
    unfolding tr by (simp add: ten_msgs_def fresh_def ChannelPurger_def)
  have d0: "deleted fresh = []" "trace fresh = []"
    by (simp_all add: fresh_def ChannelPurger_def)
  from individual_deleter_outcome[OF h1 h2 refl] h3
  have "deleted ?s' = deleted fresh @ take 8 ten_msgs \<and> length (trace ?s') = length (trace fresh) + 10"
    by blast
  moreover have "trace ?s' ! 3 = DeleteCall (ten_msgs ! 2) NotFound"
    "trace ?s' ! 9 = DeleteCall (ten_msgs ! 8) HTTPError"
    unfolding tr by (simp_all add: ten_msgs_def)
  ultimately show ?thesis using d0 by simp
qed

subsection \<open>Chunks\<close>

lemma spec_chunks_Nil: "spec_chunks [] = []"
  by (simp add: spec_chunks_def)

lemma chunk_count_step:
  assumes "xs \<noteq> []"
  shows "(length xs + 99) div 100 = Suc ((length xs - 100 + 99) div 100)"
proof -
  define k where "k = length xs - 1"
  with assms have len: "length xs = Suc k" by (cases xs) simp_all
  have "length xs + 99 = k + 100" using len by simp
  then have L: "(length xs + 99) div 100 = Suc (k div 100)" by (simp only: div_add_self2)
  have R: "(length xs - 100 + 99) div 100 = k div 100"
  proof (cases "100 \<le> length xs")
    case True
    then have "length xs - 100 + 99 = k" using len by simp
    then show ?thesis by simp
  next
    case False
    then have "length xs - 100 + 99 = 99" "k < 100" using len by simp_all
    then show ?thesis by simp
  qed
  from L R show ?thesis by simp
qed

lemma spec_chunks_rec:
  assumes "xs \<noteq> []"
  shows "spec_chunks xs = take 100 xs # spec_chunks (drop 100 xs)"
  unfolding spec_chunks_def chunk_count_step[OF assms]
  by (simp add: map_upt_Suc del: upt_Suc) (simp add: add.commute)

lemma concat_spec_chunks: "concat (spec_chunks xs) = xs"
proof (induction "length xs" arbitrary: xs rule: less_induct)
  case less
  show ?case
  proof (cases "xs = []")
    case True
    then show ?thesis by (simp add: spec_chunks_Nil)
  next
    case False
    then have "length (drop 100 xs) < length xs" by simp
    from less[OF this] False show ?thesis
      by (simp add: spec_chunks_rec)
  qed
qed

lemma spec_chunks_sizes: "c \<in> set (spec_chunks xs) \<Longrightarrow> 0 < length c \<and> length c \<le> 100"
  by (auto simp: spec_chunks_def)

lemma bulk_from_chunks:
  "bulk_from R ms i s = bulk_chunks R (spec_chunks (drop i ms)) s"
proof (induction R ms i s rule: bulk_from.induct)
  case (1 R ms i s)
  show ?case
  proof (cases "i < length ms")
    case True
    then have ne: "drop i ms \<noteq> []" by simp
    show ?thesis
    proof (cases "bulk_chunk R (take 100 (drop i ms)) s")
      case (Pair ok s1)
      with True 1[OF True Pair[symmetric]] show ?thesis
        by (subst bulk_from.simps) (cases ok; simp add: spec_chunks_rec[OF ne] add.commute)
    qed
  next
    case False
    then show ?thesis
      by (subst bulk_from.simps) (simp add: spec_chunks_Nil)
  qed
qed

lemma bulk_delete_chunks: "bulk_delete R ms s = bulk_chunks R (spec_chunks ms) s"
  by (simp add: bulk_delete_def bulk_from_chunks)

lemma await_delete_eq:
  "await_delete R m s =
     (fst (msg_delete R m (world s)),
      s\<lparr>world := snd (msg_delete R m (world s)),
        trace := trace s @ [DeleteCall m (fst (msg_delete R m (world s)))]\<rparr>)"
  by (simp add: await_delete_def split: prod.splits)

lemma await_delete_messages_eq:
  "await_delete_messages R c s =
     (fst (delete_messages R c (world s)),
      s\<lparr>world := snd (delete_messages R c (world s)),
        trace := trace s @ [BatchCall c (fst (delete_messages R c (world s)))]\<rparr>)"
  by (simp add: await_delete_messages_def split: prod.splits)

lemma bulk_chunk_eq:
  "bulk_chunk R c s =
     (if first_resp R c (world s) = Ok
      then (True, (after_first R c s)\<lparr>deleted := deleted s @ c\<rparr>)
      else delete_each R c (after_first R c s))"
  by (auto simp: bulk_chunk_def first_resp_def after_first_def first_call_def
        await_delete_eq await_delete_messages_eq split: resp.splits)

lemma bulk_chunk_shape:
  assumes "bulk_chunk R c s = (ok, s')"
  shows "\<exists>k rs. k \<le> length c \<and> length rs = k \<and> HTTPError \<notin> set rs \<and>
       deleted s' = deleted s @ take k c \<and>
       trace s' = trace s @ first_call R c (world s) #
          (if first_resp R c (world s) = Ok then []
           else map2 DeleteCall (take k c) rs @
                (if ok then [] else [DeleteCall (c ! k) HTTPError])) \<and>
       (ok \<longleftrightarrow> k = length c) \<and> before s' = before s \<and> after s' = after s"
proof (cases "first_resp R c (world s) = Ok")
  case True
  with assms have "ok" "s' = (after_first R c s)\<lparr>deleted := deleted s @ c\<rparr>"
    by (auto simp: bulk_chunk_eq)
  with True show ?thesis
    by (intro exI[of _ "length c"] exI[of _ "replicate (length c) Ok"])
       (simp add: after_first_def)
next
  case False
  with assms have "delete_each R c (after_first R c s) = (ok, s')"
    by (simp add: bulk_chunk_eq)
  from delete_each_shape[OF this] False show ?thesis
    by (simp add: after_first_def)
qed

lemma map2_DeleteCall_mem:
  "e \<in> set (map2 DeleteCall ms rs) \<Longrightarrow> \<exists>m r. e = DeleteCall m r \<and> m \<in> set ms \<and> r \<in> set rs"
  by (auto dest: set_zip_leftD set_zip_rightD)

lemma map2_DeleteCall_take:
  "DeleteCall m r \<in> set (map2 DeleteCall (take k c) rs) \<Longrightarrow> m \<in> set c"
  by (auto dest!: set_zip_leftD in_set_takeD)

lemma map2_DeleteCall_no_batch:
  "BatchCall c' r \<notin> set (map2 DeleteCall ms rs)"
  by auto

lemma bulk_chunk_events:
  assumes "bulk_chunk R c s = (ok, s')"
  shows "\<exists>new d. trace s' = trace s @ new \<and> deleted s' = deleted s @ d \<and> prefix d c \<and>
       (ok \<longrightarrow> d = c) \<and>
       (\<forall>c' r. BatchCall c' r \<in> set new \<longrightarrow> c' = c \<and> length c \<noteq> 1) \<and>
       (\<forall>m r. DeleteCall m r \<in> set new \<longrightarrow> m \<in> set c) \<and>
       (\<forall>e\<in>set new. (\<exists>m r. e = DeleteCall m r) \<or> (\<exists>c' r. e = BatchCall c' r)) \<and>
       (\<not> ok \<longrightarrow> (\<exists>m. new \<noteq> [] \<and> last new = DeleteCall m HTTPError)) \<and>
       before s' = before s \<and> after s' = after s"
proof -
  from bulk_chunk_shape[OF assms] obtain k rs where
    k: "k \<le> length c" "length rs = k" "HTTPError \<notin> set rs"
       "deleted s' = deleted s @ take k c"
       "trace s' = trace s @ first_call R c (world s) #
          (if first_resp R c (world s) = Ok then []
           else map2 DeleteCall (take k c) rs @
                (if ok then [] else [DeleteCall (c ! k) HTTPError]))"
       "ok \<longleftrightarrow> k = length c" "before s' = before s" "after s' = after s"
    by blast
  let ?new = "first_call R c (world s) #
          (if first_resp R c (world s) = Ok then []
           else map2 DeleteCall (take k c) rs @
                (if ok then [] else [DeleteCall (c ! k) HTTPError]))"
  have ck: "\<not> ok \<Longrightarrow> c ! k \<in> set c" using k(1,6) by simp
  have one: "length c = 1 \<Longrightarrow> c ! 0 \<in> set c" by simp
  have okr: "first_resp R c (world s) = Ok \<Longrightarrow> ok"
    using assms by (simp add: bulk_chunk_eq)
  have b: "\<forall>c' r. BatchCall c' r \<in> set ?new \<longrightarrow> c' = c \<and> length c \<noteq> 1"
    by (auto simp: first_call_def dest!: map2_DeleteCall_mem split: if_splits)
  have d: "\<forall>m r. DeleteCall m r \<in> set ?new \<longrightarrow> m \<in> set c"
    using ck one by (auto simp: first_call_def dest!: set_zip_leftD in_set_takeD split: if_splits)
  have e: "\<forall>e\<in>set ?new. (\<exists>m r. e = DeleteCall m r) \<or> (\<exists>c' r. e = BatchCall c' r)"
    by (auto simp: first_call_def dest!: map2_DeleteCall_mem split: if_splits)
  have l: "\<not> ok \<longrightarrow> (\<exists>m. ?new \<noteq> [] \<and> last ?new = DeleteCall m HTTPError)"
    using okr by auto
  have p: "prefix (take k c) c" by (simp add: take_is_prefix)
  have f: "ok \<longrightarrow> take k c = c" using k(6) by simp
  from k(4,5,7,8) b d e l p f show ?thesis by blast
qed

lemma bulk_chunks_events:
  "bulk_chunks R cs s = (ok, s') \<Longrightarrow>
     \<exists>new d. trace s' = trace s @ new \<and> deleted s' = deleted s @ d \<and> prefix d (concat cs) \<and>
       (\<forall>c r. BatchCall c r \<in> set new \<longrightarrow> c \<in> set cs \<and> length c \<noteq> 1) \<and>
       (\<forall>m r. DeleteCall m r \<in> set new \<longrightarrow> m \<in> set (concat cs)) \<and>
       (\<forall>e\<in>set new. (\<exists>m r. e = DeleteCall m r) \<or> (\<exists>c r. e = BatchCall c r)) \<and>
       (\<not> ok \<longrightarrow> (\<exists>m. new \<noteq> [] \<and> last new = DeleteCall m HTTPError)) \<and>
       before s' = before s \<and> after s' = after s"
proof (induction cs arbitrary: s)
  case Nil
  then show ?case by auto
next
  case (Cons c cs)
  obtain ok1 s1 where c1: "bulk_chunk R c s = (ok1, s1)" by (cases "bulk_chunk R c s")
  from bulk_chunk_events[OF c1] obtain n1 d1 where
    a: "trace s1 = trace s @ n1" "deleted s1 = deleted s @ d1" "prefix d1 c" "ok1 \<longrightarrow> d1 = c"
       "\<forall>c' r. BatchCall c' r \<in> set n1 \<longrightarrow> c' = c \<and> length c \<noteq> 1"
       "\<forall>m r. DeleteCall m r \<in> set n1 \<longrightarrow> m \<in> set c"
       "\<forall>e\<in>set n1. (\<exists>m r. e = DeleteCall m r) \<or> (\<exists>c' r. e = BatchCall c' r)"
       "\<not> ok1 \<longrightarrow> (\<exists>m. n1 \<noteq> [] \<and> last n1 = DeleteCall m HTTPError)"
       "before s1 = before s" "after s1 = after s"
    by blast
  show ?case
  proof (cases ok1)
    case False
    with Cons.prems c1 have eq: "ok = False" "s' = s1" by auto
    have "prefix d1 (concat (c # cs))" using a(3) by (simp add: prefix_prefix)
    with a False eq show ?thesis
      by (intro exI[of _ n1] exI[of _ d1]) auto
  next
    case True
    with Cons.prems c1 have "bulk_chunks R cs s1 = (ok, s')" by simp
    from Cons.IH[OF this] obtain n2 d2 where
      b: "trace s' = trace s1 @ n2" "deleted s' = deleted s1 @ d2" "prefix d2 (concat cs)"
       "\<forall>c r. BatchCall c r \<in> set n2 \<longrightarrow> c \<in> set cs \<and> length c \<noteq> 1"
       "\<forall>m r. DeleteCall m r \<in> set n2 \<longrightarrow> m \<in> set (concat cs)"
       "\<forall>e\<in>set n2. (\<exists>m r. e = DeleteCall m r) \<or> (\<exists>c r. e = BatchCall c r)"
       "\<not> ok \<longrightarrow> (\<exists>m. n2 \<noteq> [] \<and> last n2 = DeleteCall m HTTPError)"
       "before s' = before s1" "after s' = after s1"
      by blast
    from a(4) True have d1: "d1 = c" by simp
    have t: "trace s' = trace s @ (n1 @ n2)" using a(1) b(1) by simp
    have dd: "deleted s' = deleted s @ (d1 @ d2)" using a(2) b(2) by simp
    have p: "prefix (d1 @ d2) (concat (c # cs))" using b(3) d1 by simp
    have B: "\<forall>c' r. BatchCall c' r \<in> set (n1 @ n2) \<longrightarrow> c' \<in> set (c # cs) \<and> length c' \<noteq> 1"
      using a(5) b(4) by auto
    have D: "\<forall>m r. DeleteCall m r \<in> set (n1 @ n2) \<longrightarrow> m \<in> set (concat (c # cs))"
      using a(6) b(5) by auto
    have E: "\<forall>e\<in>set (n1 @ n2). (\<exists>m r. e = DeleteCall m r) \<or> (\<exists>c r. e = BatchCall c r)"
      using a(7) b(6) by auto
    have L: "\<not> ok \<longrightarrow> (\<exists>m. n1 @ n2 \<noteq> [] \<and> last (n1 @ n2) = DeleteCall m HTTPError)"
      using b(7) by auto
    from t dd p B D E L a(9,10) b(8,9) show ?thesis
      by (intro exI[of _ "n1 @ n2"] exI[of _ "d1 @ d2"]) simp
  qed
qed

subsection \<open>The batch deleter\<close>

lemma length_numbered: "length (numbered n t) = n"
  by (simp add: numbered_def)

lemma spec_chunks_two:
  assumes "100 < length xs" "length xs \<le> 200"
  shows "spec_chunks xs = [take 100 xs, drop 100 xs]"
proof -
  from assms have a: "xs \<noteq> []" "drop 100 xs \<noteq> []" by auto
  from assms have b: "drop 100 (drop 100 xs) = []" "take 100 (drop 100 xs) = drop 100 xs" by auto
  have "spec_chunks (drop 100 xs) = [drop 100 xs]"
    by (subst spec_chunks_rec[OF a(2)]) (simp only: b spec_chunks_Nil)
  then show ?thesis
    by (subst spec_chunks_rec[OF a(1)]) simp
qed

lemma all_ok_simps:
  "msg_delete (all_ok h) m w = (Ok, Suc w)"
  "delete_messages (all_ok h) c w = (Ok, Suc w)"
  by (simp_all add: all_ok_def scripted_def)

lemma bulk_chunk_all_ok:
  "bulk_chunk (all_ok h) c s =
    (True, s\<lparr>world := Suc (world s),
       trace := trace s @ [if length c = 1 then DeleteCall (c ! 0) Ok else BatchCall c Ok],
       deleted := deleted s @ c\<rparr>)"
proof (cases "length c = 1")
  case True
  then show ?thesis
    by (simp add: bulk_chunk_def await_delete_def all_ok_simps)
next
  case False
  then show ?thesis
    by (simp add: bulk_chunk_def await_delete_messages_def all_ok_simps)
qed



lemma spec_chunks_full:
  assumes "Suc j < length (spec_chunks xs)"
  shows "length (spec_chunks xs ! j) = 100"
proof -
  define N where "N = (length xs + 99) div 100"
  from assms have a: "Suc j < N" by (simp add: spec_chunks_def N_def)
  have "100 * N \<le> length xs + 99"
    unfolding N_def by (rule times_div_less_eq_dividend)
  with a have b: "100 * j + 100 \<le> length xs" by linarith
  from a have c: "j < N" by simp
  have "spec_chunks xs ! j = take 100 (drop (100 * j) xs)"
    using c unfolding spec_chunks_def N_def[symmetric] by simp
  with b show ?thesis by simp
qed

text \<open>
  Claim C2. The batch deleter works through the chunks \<open>spec_chunks ms\<close> one after the
  other: consecutive slices of the input that concatenate to the input, each of one to a
  hundred messages and all but the last of exactly a hundred. For every chunk the first
  call is the single-message delete when the chunk has exactly one message and the batch
  call otherwise, and whatever follows for that chunk is single-message deletes of its
  messages. So every batch call of a run carries a chunk of two to a hundred messages.
\<close>

theorem batch_deleter_chunks:
  "concat (spec_chunks ms) = ms \<and>
   (\<forall>c\<in>set (spec_chunks ms). 0 < length c \<and> length c \<le> 100) \<and>
   (\<forall>j. Suc j < length (spec_chunks ms) \<longrightarrow> length (spec_chunks ms ! j) = 100) \<and>
   bulk_delete R ms s = bulk_chunks R (spec_chunks ms) s \<and>
   (\<forall>c s0. \<exists>rest. trace (snd (bulk_chunk R c s0)) =
        trace s0 @
        (if length c = 1 then DeleteCall (c ! 0) (fst (msg_delete R (c ! 0) (world s0)))
         else BatchCall c (fst (delete_messages R c (world s0)))) # rest \<and>
        (\<forall>e\<in>set rest. \<exists>m r. e = DeleteCall m r \<and> m \<in> set c)) \<and>
   (\<exists>new. trace (snd (bulk_delete R ms s)) = trace s @ new \<and>
      (\<forall>c r. BatchCall c r \<in> set new \<longrightarrow>
         c \<in> set (spec_chunks ms) \<and> 2 \<le> length c \<and> length c \<le> 100))"
proof -
  have sizes: "\<forall>c\<in>set (spec_chunks ms). 0 < length c \<and> length c \<le> 100"
    using spec_chunks_sizes by blast
  have full: "\<forall>j. Suc j < length (spec_chunks ms) \<longrightarrow> length (spec_chunks ms ! j) = 100"
    using spec_chunks_full by blast
  have chunk: "\<exists>rest. trace (snd (bulk_chunk R c s0)) =
        trace s0 @
        (if length c = 1 then DeleteCall (c ! 0) (fst (msg_delete R (c ! 0) (world s0)))
         else BatchCall c (fst (delete_messages R c (world s0)))) # rest \<and>
        (\<forall>e\<in>set rest. \<exists>m r. e = DeleteCall m r \<and> m \<in> set c)" for c s0
  proof -
    obtain ok s1 where b: "bulk_chunk R c s0 = (ok, s1)" by (cases "bulk_chunk R c s0")
    from bulk_chunk_shape[OF b] obtain k rs where
      k: "k \<le> length c" "trace s1 = trace s0 @ first_call R c (world s0) #
          (if first_resp R c (world s0) = Ok then []
           else map2 DeleteCall (take k c) rs @
                (if ok then [] else [DeleteCall (c ! k) HTTPError]))"
        "ok \<longleftrightarrow> k = length c"
      by blast
    let ?rest = "(if first_resp R c (world s0) = Ok then []
           else map2 DeleteCall (take k c) rs @
                (if ok then [] else [DeleteCall (c ! k) HTTPError]))"
    have ck: "\<not> ok \<Longrightarrow> c ! k \<in> set c" using k(1,3) by simp
    have "\<forall>e\<in>set ?rest. \<exists>m r. e = DeleteCall m r \<and> m \<in> set c"
      using ck by (auto dest!: set_zip_leftD in_set_takeD)
    with k(2) b show ?thesis
      by (intro exI[of _ ?rest]) (simp add: first_call_def)
  qed
  obtain ok s' where run: "bulk_chunks R (spec_chunks ms) s = (ok, s')"
    by (cases "bulk_chunks R (spec_chunks ms) s")
  from bulk_chunks_events[OF run] obtain new where
    n: "trace s' = trace s @ new"
       "\<forall>c r. BatchCall c r \<in> set new \<longrightarrow> c \<in> set (spec_chunks ms) \<and> length c \<noteq> 1"
    by blast
  have "\<forall>c r. BatchCall c r \<in> set new \<longrightarrow>
         c \<in> set (spec_chunks ms) \<and> 2 \<le> length c \<and> length c \<le> 100"
  proof (intro allI impI)
    fix c r assume "BatchCall c r \<in> set new"
    with n(2) have c: "c \<in> set (spec_chunks ms)" "length c \<noteq> 1" by auto
    from spec_chunks_sizes[OF c(1)] have "0 < length c" "length c \<le> 100" by simp_all
    moreover from \<open>0 < length c\<close> c(2) have "2 \<le> length c" by arith
    ultimately show "c \<in> set (spec_chunks ms) \<and> 2 \<le> length c \<and> length c \<le> 100"
      using c(1) by blast
  qed
  with n(1) run have tr: "\<exists>new. trace (snd (bulk_delete R ms s)) = trace s @ new \<and>
      (\<forall>c r. BatchCall c r \<in> set new \<longrightarrow>
         c \<in> set (spec_chunks ms) \<and> 2 \<le> length c \<and> length c \<le> 100)"
    by (simp add: bulk_delete_chunks)
  from concat_spec_chunks[of ms] sizes full bulk_delete_chunks[of R ms s] chunk tr
  show ?thesis by blast
qed

text \<open>
  A run on 101 messages where every call succeeds: one batch call with the first hundred,
  then a single delete of the last one.
\<close>

theorem batch_deleter_chunks_witness:
  "trace (snd (bulk_delete (all_ok []) (numbered 101 0) fresh)) =
     [BatchCall (take 100 (numbered 101 0)) Ok, DeleteCall (numbered 101 0 ! 100) Ok] \<and>
   deleted (snd (bulk_delete (all_ok []) (numbered 101 0) fresh)) = numbered 101 0"
proof -
  let ?ms = "numbered 101 0"
  have ch: "spec_chunks ?ms = [take 100 ?ms, drop 100 ?ms]"
    by (rule spec_chunks_two) (simp_all add: length_numbered)
  from batch_deleter_chunks[of ?ms "all_ok []" fresh]
  have "bulk_delete (all_ok []) ?ms fresh = bulk_chunks (all_ok []) (spec_chunks ?ms) fresh"
    by blast
  then have eq: "bulk_delete (all_ok []) ?ms fresh =
      bulk_chunks (all_ok []) [take 100 ?ms, drop 100 ?ms] fresh"
    by (simp only: ch)
  have l: "length (drop 100 ?ms) = 1" "length (take 100 ?ms) = 100"
    by (simp_all add: length_numbered)
  have n: "drop 100 ?ms ! 0 = ?ms ! 100" by (simp add: length_numbered)
  show ?thesis
    unfolding eq
    by (simp add: bulk_chunk_all_ok length_numbered n fresh_def ChannelPurger_def)
qed

subsection \<open>The fallback after a failed batch call\<close>

text \<open>
  Claim C3, as stated, fails: after a failed batch call the items of the chunk are not all
  attempted when one of the single deletes fails hard. Here the batch call of a chunk of
  two fails, the delete of the first message fails hard, and the second message is never
  attempted.
\<close>

theorem batch_fallback_all_items_counterexample:
  "trace (snd (bulk_chunk (all_fail []) (take 2 ten_msgs) fresh)) =
     [BatchCall (take 2 ten_msgs) HTTPError, DeleteCall (ten_msgs ! 0) HTTPError]"
  by (simp add: bulk_chunk_def await_delete_messages_def delete_single_def await_delete_def
      all_fail_def scripted_def ten_msgs_def fresh_def ChannelPurger_def)

text \<open>
  Claim C3, amended. When the first call for a chunk fails (for a chunk of two or more that
  call is the batch call), the messages of the chunk are deleted one by one in the chunk's
  order, up to and including the first delete that fails hard: the \<open>k\<close> messages before it
  are appended to the outcome, and all of the chunk when no delete fails hard. After a hard
  failure the loop of the batch deleter ends in the state the fallback left: the rest of
  the chunk and every later chunk are skipped.
\<close>

theorem batch_fallback:
  assumes "first_resp R c (world s) \<noteq> Ok"
      and "bulk_chunk R c s = (ok, s')"
  shows "\<exists>k rs. k \<le> length c \<and> length rs = k \<and> HTTPError \<notin> set rs \<and>
           trace s' = trace s @ first_call R c (world s) # map2 DeleteCall (take k c) rs @
             (if k < length c then [DeleteCall (c ! k) HTTPError] else []) \<and>
           deleted s' = deleted s @ take k c \<and>
           (ok \<longleftrightarrow> k = length c) \<and>
           (\<not> ok \<longrightarrow>
              (\<forall>ms i. i < length ms \<and> take 100 (drop i ms) = c \<longrightarrow>
                 bulk_from R ms i s = (False, s')))"
proof -
  from bulk_chunk_shape[OF assms(2)] assms(1) obtain k rs where
    k: "k \<le> length c" "length rs = k" "HTTPError \<notin> set rs"
       "deleted s' = deleted s @ take k c"
       "trace s' = trace s @ first_call R c (world s) #
           map2 DeleteCall (take k c) rs @
                (if ok then [] else [DeleteCall (c ! k) HTTPError])"
       "ok \<longleftrightarrow> k = length c"
    by auto
  have tail: "(if ok then [] else [DeleteCall (c ! k) HTTPError]) =
              (if k < length c then [DeleteCall (c ! k) HTTPError] else [])"
    using k(1,6) by auto
  have stop: "bulk_from R ms i s = (False, s')"
    if "\<not> ok" "i < length ms" "take 100 (drop i ms) = c" for ms i
    using that assms(2) by (subst bulk_from.simps) simp
  from k(1-4,6) k(5)[unfolded tail] stop show ?thesis by blast
qed

text \<open>
  A chunk of three whose batch call fails and whose second single delete fails hard: the
  first message is deleted, the third is never attempted.
\<close>

theorem batch_fallback_witness:
  "bulk_delete second_fails (take 3 ten_msgs) fresh =
     (False, fresh\<lparr>world := 3,
        trace := [BatchCall (take 3 ten_msgs) HTTPError, DeleteCall (ten_msgs ! 0) Ok,
                  DeleteCall (ten_msgs ! 1) HTTPError],
        deleted := [ten_msgs ! 0]\<rparr>)"
proof -
  let ?c = "take 3 ten_msgs"
  let ?s' = "fresh\<lparr>world := 3,
        trace := [BatchCall ?c HTTPError, DeleteCall (ten_msgs ! 0) Ok,
                  DeleteCall (ten_msgs ! 1) HTTPError],
        deleted := [ten_msgs ! 0]\<rparr>"
  have h1: "first_resp second_fails ?c (world fresh) \<noteq> Ok"
    by (simp add: first_resp_def second_fails_def scripted_def ten_msgs_def)
  have h2: "bulk_chunk second_fails ?c fresh = (False, ?s')"
    by (simp add: bulk_chunk_def await_delete_messages_def delete_single_def await_delete_def
      second_fails_def scripted_def ten_msgs_def fresh_def ChannelPurger_def mk_msg_def)
  have h3: "0 < length ?c \<and> take 100 (drop 0 ?c) = ?c"
    by (simp add: ten_msgs_def)
  from batch_fallback[OF h1 h2] h3 have "bulk_from second_fails ?c 0 fresh = (False, ?s')"
    by blast
  then show ?thesis by (simp add: bulk_delete_def)
qed

subsection \<open>The two age partitions are deleted independently\<close>

text \<open>With no match both partitions are empty, so the early return of \<^verbatim>\<open>purge\<close> is a case of the general path.\<close>

lemma purge_eq:
  "purge R now limit check s =
     snd (delete_each R (old_msgs (now - BULK_DELETE_LIMIT) (fst (collect R limit check s)))
       (snd (bulk_delete R (bulk_msgs (now - BULK_DELETE_LIMIT) (fst (collect R limit check s)))
          (s\<lparr>trace := trace s @ [HistoryCall (min (limit * 5) 5000) (before s) (after s)]\<rparr>))))"
  by (simp add: purge_def Let_def bulk_msgs_def old_msgs_def bulk_delete_Nil)

lemma spec_chunks_one:
  assumes "xs \<noteq> []" "length xs \<le> 100"
  shows "spec_chunks xs = [xs]"
  using assms by (simp add: spec_chunks_rec spec_chunks_Nil)

text \<open>
  Claim C5. When the batch deleter left by its hard abort (its Boolean is \<open>False\<close>) in
  state \<open>s1\<close>, the purge goes on with the individual deleter on the old messages from
  that state: its calls follow those of the batch deleter in the trace, one delete per old
  message in order until one fails hard, and the first old message is always attempted.
\<close>

theorem old_attempted_after_bulk_abort:
  assumes "msgs = fst (collect R limit check s)"
      and "old = old_msgs (now - BULK_DELETE_LIMIT) msgs"
      and "bulk_delete R (bulk_msgs (now - BULK_DELETE_LIMIT) msgs)
             (s\<lparr>trace := trace s @ [HistoryCall (min (limit * 5) 5000) (before s) (after s)]\<rparr>)
           = (False, s1)"
  shows "purge R now limit check s = snd (delete_each R old s1) \<and>
         (\<exists>k rs. k \<le> length old \<and> length rs = k \<and> HTTPError \<notin> set rs \<and>
            trace (purge R now limit check s) = trace s1 @ map2 DeleteCall (take k old) rs @
              (if k < length old then [DeleteCall (old ! k) HTTPError] else []) \<and>
            deleted (purge R now limit check s) = deleted s1 @ take k old) \<and>
         (old \<noteq> [] \<longrightarrow>
            length (trace s1) < length (trace (purge R now limit check s)) \<and>
            (\<exists>r. trace (purge R now limit check s) ! length (trace s1) = DeleteCall (old ! 0) r))"
proof -
  have eq: "purge R now limit check s = snd (delete_each R old s1)"
    using assms by (simp add: purge_eq)
  obtain ok where run: "delete_each R old s1 = (ok, purge R now limit check s)"
    using eq by (cases "delete_each R old s1") simp
  from delete_each_shape[OF run] obtain k rs where
    k: "k \<le> length old" "length rs = k" "HTTPError \<notin> set rs"
       "deleted (purge R now limit check s) = deleted s1 @ take k old"
       "trace (purge R now limit check s) = trace s1 @ map2 DeleteCall (take k old) rs @
             (if ok then [] else [DeleteCall (old ! k) HTTPError])"
       "ok \<longleftrightarrow> k = length old"
    by auto
  have tail: "(if ok then [] else [DeleteCall (old ! k) HTTPError]) =
              (if k < length old then [DeleteCall (old ! k) HTTPError] else [])"
    using k(1,6) by auto
  note tr = k(5)[unfolded tail]
  have first: "length (trace s1) < length (trace (purge R now limit check s)) \<and>
      (\<exists>r. trace (purge R now limit check s) ! length (trace s1) = DeleteCall (old ! 0) r)"
    if ne: "old \<noteq> []"
  proof (cases k)
    case 0
    with ne tr show ?thesis by simp
  next
    case (Suc k')
    with k(2) obtain r rs' where rs: "rs = r # rs'" by (cases rs) auto
    from Suc ne obtain m old' where old: "old = m # old'" by (cases old) auto
    from tr show ?thesis unfolding Suc rs old by (simp add: nth_append)
  qed
  from eq k(1-4) tr first show ?thesis by blast
qed

text \<open>
  On day 20: the batch call for the two recent messages fails and their fallback aborts at
  once; the two old messages are deleted all the same.
\<close>

theorem old_attempted_after_bulk_abort_witness:
  "fst (bulk_delete bulk_aborts (take 2 mixed_msgs)
      (fresh\<lparr>trace := [HistoryCall 20 None None]\<rparr>)) = False \<and>
   trace (purge bulk_aborts (20 * day) 4 (\<lambda>_. True) fresh) =
     [HistoryCall 20 None None, BatchCall (take 2 mixed_msgs) HTTPError,
      DeleteCall (mixed_msgs ! 0) HTTPError,
      DeleteCall (mixed_msgs ! 2) Ok, DeleteCall (mixed_msgs ! 3) Ok] \<and>
   deleted (purge bulk_aborts (20 * day) 4 (\<lambda>_. True) fresh) = drop 2 mixed_msgs"
proof -
  let ?s0 = "fresh\<lparr>trace := trace fresh @ [HistoryCall (min (4 * 5) 5000) (before fresh) (after fresh)]\<rparr>"
  let ?s1 = "fresh\<lparr>world := 2, trace := [HistoryCall 20 None None,
      BatchCall (take 2 mixed_msgs) HTTPError, DeleteCall (mixed_msgs ! 0) HTTPError]\<rparr>"
  have s0: "?s0 = fresh\<lparr>trace := [HistoryCall 20 None None]\<rparr>"
    by (simp add: fresh_def ChannelPurger_def)
  have c: "fst (collect bulk_aborts 4 (\<lambda>_. True) fresh) = mixed_msgs"
    by (simp add: collect_def bulk_aborts_def scripted_def fresh_def ChannelPurger_def
        mixed_msgs_def)
  have b: "bulk_msgs (20 * day - BULK_DELETE_LIMIT) mixed_msgs = take 2 mixed_msgs"
    and ol: "old_msgs (20 * day - BULK_DELETE_LIMIT) mixed_msgs = drop 2 mixed_msgs"
    by (simp_all add: bulk_msgs_def old_msgs_def mixed_msgs_def mk_msg_def day_def
        BULK_DELETE_LIMIT_def)
  have ch: "bulk_chunk bulk_aborts (take 2 mixed_msgs) ?s0 = (False, ?s1)"
    by (simp add: bulk_chunk_def await_delete_messages_def delete_single_def await_delete_def
      bulk_aborts_def scripted_def mixed_msgs_def fresh_def ChannelPurger_def mk_msg_def)
  have bd: "bulk_delete bulk_aborts (take 2 mixed_msgs) ?s0 = (False, ?s1)"
  proof -
    have "spec_chunks (take 2 mixed_msgs) = [take 2 mixed_msgs]"
      by (rule spec_chunks_one) (simp_all add: mixed_msgs_def)
    then show ?thesis
      by (simp only: bulk_delete_chunks bulk_chunks.simps ch) simp
  qed
  have de: "delete_each bulk_aborts (drop 2 mixed_msgs) ?s1 =
      (True, ?s1\<lparr>world := 4, trace := trace ?s1 @
          [DeleteCall (mixed_msgs ! 2) Ok, DeleteCall (mixed_msgs ! 3) Ok],
        deleted := drop 2 mixed_msgs\<rparr>)"
    by (simp add: delete_single_def await_delete_def
      bulk_aborts_def scripted_def mixed_msgs_def fresh_def ChannelPurger_def mk_msg_def)
  from old_attempted_after_bulk_abort[of mixed_msgs bulk_aborts 4 "\<lambda>_. True" fresh
      "drop 2 mixed_msgs" "20 * day" ?s1] c ol b bd
  have "purge bulk_aborts (20 * day) 4 (\<lambda>_. True) fresh =
      snd (delete_each bulk_aborts (drop 2 mixed_msgs) ?s1)"
    by simp
  with de bd s0 show ?thesis by (simp add: fresh_def ChannelPurger_def)
qed

subsection \<open>Scanning\<close>

text \<open>
  The loop over the history, started below the limit: it takes a prefix of the history,
  keeps the matches of that prefix, never holds more than \<open>limit\<close> matches, and leaves early
  only with exactly \<open>limit\<close> matches, which no shorter prefix has.
\<close>

lemma scan_shape:
  assumes "int (length acc) < limit"
  shows "\<exists>k. k \<le> length hist \<and>
           scan check limit hist acc n = (acc @ filter check (take k hist), n + k) \<and>
           int (length (acc @ filter check (take k hist))) \<le> limit \<and>
           (k = length hist \<or> int (length (acc @ filter check (take k hist))) = limit) \<and>
           (\<forall>j<k. int (length (acc @ filter check (take j hist))) < limit)"
  using assms
proof (induction hist arbitrary: acc n)
  case Nil
  then show ?case by simp
next
  case (Cons m hist)
  show ?case
  proof (cases "check m")
    case False
    from Cons.IH[OF Cons.prems, of "Suc n"] obtain k where
      k: "k \<le> length hist"
         "scan check limit hist acc (Suc n) = (acc @ filter check (take k hist), Suc n + k)"
         "int (length (acc @ filter check (take k hist))) \<le> limit"
         "k = length hist \<or> int (length (acc @ filter check (take k hist))) = limit"
         "\<forall>j<k. int (length (acc @ filter check (take j hist))) < limit"
      by blast
    have "\<forall>j<Suc k. int (length (acc @ filter check (take j (m # hist)))) < limit"
    proof (intro allI impI)
      fix j assume "j < Suc k"
      then show "int (length (acc @ filter check (take j (m # hist)))) < limit"
        using k(5) Cons.prems False by (cases j) auto
    qed
    with k False show ?thesis
      by (intro exI[of _ "Suc k"]) simp
  next
    case True
    show ?thesis
    proof (cases "int (length (acc @ [m])) \<ge> limit")
      case stop: True
      with Cons.prems have eq: "int (length (acc @ [m])) = limit" by simp
      have "\<forall>j<Suc 0. int (length (acc @ filter check (take j (m # hist)))) < limit"
        using Cons.prems by simp
      with True stop eq show ?thesis
        by (intro exI[of _ "Suc 0"]) (simp add: Let_def)
    next
      case go: False
      then have "int (length (acc @ [m])) < limit" by simp
      from Cons.IH[OF this, of "Suc n"] obtain k where
        k: "k \<le> length hist"
           "scan check limit hist (acc @ [m]) (Suc n) =
              ((acc @ [m]) @ filter check (take k hist), Suc n + k)"
           "int (length ((acc @ [m]) @ filter check (take k hist))) \<le> limit"
           "k = length hist \<or> int (length ((acc @ [m]) @ filter check (take k hist))) = limit"
           "\<forall>j<k. int (length ((acc @ [m]) @ filter check (take j hist))) < limit"
        by blast
      have "\<forall>j<Suc k. int (length (acc @ filter check (take j (m # hist)))) < limit"
      proof (intro allI impI)
        fix j assume "j < Suc k"
        then show "int (length (acc @ filter check (take j (m # hist)))) < limit"
          using k(5) Cons.prems True by (cases j) auto
      qed
      with k True go show ?thesis
        by (intro exI[of _ "Suc k"]) (simp add: Let_def)
    qed
  qed
qed

text \<open>What a purge adds to the trace and to the outcome.\<close>

lemma purge_events:
  fixes R now limit check s
  defines "msgs \<equiv> fst (collect R limit check s)"
  defines "bulk \<equiv> bulk_msgs (now - BULK_DELETE_LIMIT) msgs"
  defines "old \<equiv> old_msgs (now - BULK_DELETE_LIMIT) msgs"
  shows "\<exists>new d1 d2.
     trace (purge R now limit check s) =
       trace s @ HistoryCall (min (limit * 5) 5000) (before s) (after s) # new \<and>
     deleted (purge R now limit check s) = deleted s @ d1 @ d2 \<and>
     prefix d1 bulk \<and> prefix d2 old \<and>
     (\<forall>c r. BatchCall c r \<in> set new \<longrightarrow> c \<in> set (spec_chunks bulk) \<and> length c \<noteq> 1) \<and>
     (\<forall>m r. DeleteCall m r \<in> set new \<longrightarrow> m \<in> set msgs) \<and>
     (\<forall>e\<in>set new. (\<exists>m r. e = DeleteCall m r) \<or> (\<exists>c r. e = BatchCall c r)) \<and>
     before (purge R now limit check s) = before s \<and> after (purge R now limit check s) = after s"
proof -
  let ?s0 = "s\<lparr>trace := trace s @ [HistoryCall (min (limit * 5) 5000) (before s) (after s)]\<rparr>"
  obtain okb s1 where b: "bulk_chunks R (spec_chunks bulk) ?s0 = (okb, s1)"
    by (cases "bulk_chunks R (spec_chunks bulk) ?s0")
  obtain oko s2 where o: "delete_each R old s1 = (oko, s2)"
    by (cases "delete_each R old s1")
  have p: "purge R now limit check s = s2"
    using b o unfolding purge_eq msgs_def[symmetric] bulk_def[symmetric] old_def[symmetric]
    by (simp add: bulk_delete_chunks)
  from bulk_chunks_events[OF b] obtain n1 d1 where
    1: "trace s1 = trace ?s0 @ n1" "deleted s1 = deleted ?s0 @ d1"
       "prefix d1 (concat (spec_chunks bulk))"
       "\<forall>c r. BatchCall c r \<in> set n1 \<longrightarrow> c \<in> set (spec_chunks bulk) \<and> length c \<noteq> 1"
       "\<forall>m r. DeleteCall m r \<in> set n1 \<longrightarrow> m \<in> set (concat (spec_chunks bulk))"
       "\<forall>e\<in>set n1. (\<exists>m r. e = DeleteCall m r) \<or> (\<exists>c r. e = BatchCall c r)"
       "before s1 = before ?s0" "after s1 = after ?s0"
    by blast
  from delete_each_shape[OF o] obtain k rs where
    2: "k \<le> length old" "deleted s2 = deleted s1 @ take k old"
       "trace s2 = trace s1 @ map2 DeleteCall (take k old) rs @
                    (if oko then [] else [DeleteCall (old ! k) HTTPError])"
       "oko \<longleftrightarrow> k = length old" "before s2 = before s1" "after s2 = after s1"
    by blast
  let ?n2 = "map2 DeleteCall (take k old) rs @ (if oko then [] else [DeleteCall (old ! k) HTTPError])"
  have bulk_sub: "set bulk \<subseteq> set msgs" and old_sub: "set old \<subseteq> set msgs"
    by (auto simp: bulk_def old_def bulk_msgs_def old_msgs_def)
  have ok: "\<not> oko \<Longrightarrow> old ! k \<in> set old" using 2(1,4) by simp
  have n2d: "\<forall>e\<in>set ?n2. \<exists>m r. e = DeleteCall m r \<and> m \<in> set old"
    using ok by (auto dest!: set_zip_leftD in_set_takeD)
  have tr: "trace s2 = trace s @ HistoryCall (min (limit * 5) 5000) (before s) (after s) # (n1 @ ?n2)"
    using 1(1) 2(3) by simp
  have dl: "deleted s2 = deleted s @ d1 @ take k old"
    using 1(2) 2(2) by simp
  have B: "\<forall>c r. BatchCall c r \<in> set (n1 @ ?n2) \<longrightarrow> c \<in> set (spec_chunks bulk) \<and> length c \<noteq> 1"
    using 1(4) n2d by auto
  have D: "\<forall>m r. DeleteCall m r \<in> set (n1 @ ?n2) \<longrightarrow> m \<in> set msgs"
  proof (intro allI impI)
    fix m r assume "DeleteCall m r \<in> set (n1 @ ?n2)"
    then consider "DeleteCall m r \<in> set n1" | "DeleteCall m r \<in> set ?n2" by auto
    then show "m \<in> set msgs"
    proof cases
      case 1
      with \<open>\<forall>m r. DeleteCall m r \<in> set n1 \<longrightarrow> m \<in> set (concat (spec_chunks bulk))\<close>
      have "m \<in> set (concat (spec_chunks bulk))" by blast
      then have "m \<in> set bulk" by (simp only: concat_spec_chunks)
      with bulk_sub show ?thesis by blast
    next
      case 2
      with n2d have "m \<in> set old" by blast
      with old_sub show ?thesis by blast
    qed
  qed
  have E: "\<forall>e\<in>set (n1 @ ?n2). (\<exists>m r. e = DeleteCall m r) \<or> (\<exists>c r. e = BatchCall c r)"
    using 1(6) n2d by auto
  have P1: "prefix d1 bulk" using 1(3) by (simp only: concat_spec_chunks)
  have P2: "prefix (take k old) old" by (simp add: take_is_prefix)
  from tr dl P1 P2 B D E 1(7,8) 2(5,6) show ?thesis
    unfolding p by (intro exI[of _ "n1 @ ?n2"] exI[of _ d1] exI[of _ "take k old"]) simp
qed

lemma scan_takes_prefix:
  "\<exists>k. k \<le> length hist \<and> scan check limit hist acc n = (acc @ filter check (take k hist), n + k)"
proof (induction hist arbitrary: acc n)
  case Nil
  then show ?case by simp
next
  case (Cons m hist)
  show ?case
  proof (cases "check m \<and> int (length (acc @ [m])) \<ge> limit")
    case True
    then show ?thesis by (intro exI[of _ "Suc 0"]) (simp add: Let_def)
  next
    case False
    let ?acc = "if check m then acc @ [m] else acc"
    from Cons.IH[of ?acc "Suc n"] obtain k where
      "k \<le> length hist" "scan check limit hist ?acc (Suc n) = (?acc @ filter check (take k hist), Suc n + k)"
      by blast
    with False show ?thesis
      by (intro exI[of _ "Suc k"]) (auto simp: Let_def)
  qed
qed

lemma collect_takes_prefix:
  "\<exists>k. k \<le> length (history R (world s) (before s) (after s)) \<and>
       k \<le> nat (min (limit * 5) 5000) \<and>
       collect R limit check s =
         (filter check (take k (history R (world s) (before s) (after s))), k)"
proof -
  let ?H = "history R (world s) (before s) (after s)"
  let ?c = "nat (min (limit * 5) 5000)"
  from scan_takes_prefix[of "take ?c ?H" check limit "[]" 0] obtain k where
    k: "k \<le> length (take ?c ?H)"
       "scan check limit (take ?c ?H) [] 0 = (filter check (take k (take ?c ?H)), k)"
    by auto
  from k(1) have le: "k \<le> length ?H" "k \<le> ?c" by simp_all
  then have "take k (take ?c ?H) = take k ?H" by (simp add: min_absorb1)
  with k(2) le show ?thesis
    by (intro exI[of _ k]) (simp add: collect_def Let_def)
qed

lemma collect_subseq:
  "subseq (fst (collect R limit check s)) (history R (world s) (before s) (after s))"
proof -
  let ?H = "history R (world s) (before s) (after s)"
  from collect_takes_prefix[of R s limit check] obtain k where
    k: "fst (collect R limit check s) = filter check (take k ?H)"
    by auto
  have "subseq (filter check (take k ?H)) (take k ?H)" by simp
  moreover have "subseq (take k ?H) ?H"
    by (rule prefix_imp_subseq) (rule take_is_prefix)
  ultimately show ?thesis
    unfolding k by (rule subseq_order.order_trans)
qed

lemma partition_lengths:
  "length (bulk_msgs c msgs) + length (old_msgs c msgs) = length msgs"
  unfolding bulk_msgs_def old_msgs_def by (induction msgs) auto

lemma partition_distinct_ids:
  assumes "distinct (map msg_id msgs)"
  shows "distinct (map msg_id (bulk_msgs c msgs @ old_msgs c msgs))"
proof -
  from assms have d: "distinct msgs" and i: "inj_on msg_id (set msgs)"
    by (simp_all add: distinct_map)
  have "distinct (bulk_msgs c msgs @ old_msgs c msgs)"
    using d unfolding bulk_msgs_def old_msgs_def by auto
  moreover have "inj_on msg_id (set (bulk_msgs c msgs @ old_msgs c msgs))"
    by (rule inj_on_subset[OF i]) (auto simp: bulk_msgs_def old_msgs_def)
  ultimately show ?thesis by (simp only: distinct_map) 
qed

lemma purge_outcome_length:
  "length (deleted (purge R now limit check s)) \<le>
     length (deleted s) + length (fst (collect R limit check s))"
proof -
  from purge_events[of R now limit check s] obtain d1 d2 where
    d: "deleted (purge R now limit check s) = deleted s @ d1 @ d2"
       "prefix d1 (bulk_msgs (now - BULK_DELETE_LIMIT) (fst (collect R limit check s)))"
       "prefix d2 (old_msgs (now - BULK_DELETE_LIMIT) (fst (collect R limit check s)))"
    by blast
  from d(2,3) have "length d1 + length d2 \<le> length (fst (collect R limit check s))"
    using partition_lengths[of "now - BULK_DELETE_LIMIT" "fst (collect R limit check s)"]
      prefix_length_le[OF d(2)] prefix_length_le[OF d(3)] by linarith
  with d(1) show ?thesis by simp
qed

text \<open>What the scan examines and collects, for a limit that is not negative.\<close>

lemma collect_bounds:
  assumes "0 \<le> limit"
  shows "\<exists>k. collect R limit check s =
             (filter check (take k (history R (world s) (before s) (after s))), k) \<and>
           int k \<le> min (limit * 5) 5000 \<and>
           k \<le> length (history R (world s) (before s) (after s)) \<and>
           int (length (fst (collect R limit check s))) \<le> limit \<and>
           (int (length (fst (collect R limit check s))) = limit \<or>
            k = min (length (history R (world s) (before s) (after s)))
                    (nat (min (limit * 5) 5000))) \<and>
           (\<forall>j<k. int (length (filter check
               (take j (history R (world s) (before s) (after s))))) < limit) \<and>
           int (length (deleted (purge R now limit check s))) \<le>
             int (length (deleted s)) + limit"
proof -
  let ?H = "history R (world s) (before s) (after s)"
  let ?c = "nat (min (limit * 5) 5000)"
  have main: "\<exists>k. collect R limit check s = (filter check (take k ?H), k) \<and>
           k \<le> ?c \<and> k \<le> length ?H \<and>
           int (length (filter check (take k ?H))) \<le> limit \<and>
           (int (length (filter check (take k ?H))) = limit \<or> k = min (length ?H) ?c) \<and>
           (\<forall>j<k. int (length (filter check (take j ?H))) < limit)"
  proof (cases "limit = 0")
    case True
    then show ?thesis by (intro exI[of _ 0]) (simp add: collect_def)
  next
    case False
    define T where "T = take ?c ?H"
    from False assms have pos: "int (length ([]::message list)) < limit" by simp
    from scan_shape[OF pos, of T check 0] obtain k where
      k: "k \<le> length T"
         "scan check limit T [] 0 = ([] @ filter check (take k T), 0 + k)"
         "int (length ([] @ filter check (take k T))) \<le> limit"
         "k = length T \<or> int (length ([] @ filter check (take k T))) = limit"
         "\<forall>j<k. int (length ([] @ filter check (take j T))) < limit"
      by blast
    from k(1) have le: "k \<le> length ?H" "k \<le> ?c" by (simp_all add: T_def)
    have tk: "take j T = take j ?H" if "j \<le> k" for j
      using that le by (simp add: T_def min_absorb1)
    have l: "length T = min (length ?H) ?c" by (simp add: T_def)
    have c1: "collect R limit check s = (filter check (take k ?H), k)"
      using k(2) tk[of k] by (simp add: collect_def Let_def T_def)
    have c2: "int (length (filter check (take k ?H))) \<le> limit"
      using k(3) tk[of k] by simp
    have c3: "int (length (filter check (take k ?H))) = limit \<or> k = min (length ?H) ?c"
      using k(4) tk[of k] l by auto
    have c4: "\<forall>j<k. int (length (filter check (take j ?H))) < limit"
    proof (intro allI impI)
      fix j assume j: "j < k"
      with k(5) have "int (length ([] @ filter check (take j T))) < limit" by blast
      with tk[of j] j show "int (length (filter check (take j ?H))) < limit" by simp
    qed
    from c1 c2 c3 c4 le show ?thesis by blast
  qed
  then obtain k where
    k: "collect R limit check s = (filter check (take k ?H), k)"
       "k \<le> ?c" "k \<le> length ?H"
       "int (length (filter check (take k ?H))) \<le> limit"
       "int (length (filter check (take k ?H))) = limit \<or> k = min (length ?H) ?c"
       "\<forall>j<k. int (length (filter check (take j ?H))) < limit"
    by blast
  from assms have "0 \<le> min (limit * 5) 5000" by simp
  with k(2) have c: "int k \<le> min (limit * 5) 5000" by linarith
  have f: "fst (collect R limit check s) = filter check (take k ?H)" by (simp add: k(1))
  from purge_outcome_length[of R now limit check s] k(4)
  have o: "int (length (deleted (purge R now limit check s))) \<le> int (length (deleted s)) + limit"
    unfolding f by linarith
  from k(1,3-6) c o show ?thesis unfolding f by blast
qed

text \<open>
  Claim C8. For a limit that is not negative (the request type has it between 1 and 2000),
  a purge makes one history call, with the ceiling \<open>min (limit * 5) 5000\<close> as its limit,
  and examines a prefix of \<open>k\<close> messages of what the history yields, with \<open>k\<close> at most
  that ceiling. It collects the matches of that prefix, at most \<open>limit\<close> of them. It stops
  with exactly \<open>limit\<close> matches or else at the end of what the history yields under the
  ceiling, and no shorter prefix has \<open>limit\<close> matches: it stops as soon as the limit is
  reached. The deletion phase of the purge runs on exactly the collected messages: the
  batch deleter on the recent ones, the individual deleter on the old ones. After the
  history call every call of the purge is a delete of a collected message or a batch of
  collected messages, and the outcome grows by at most \<open>limit\<close> messages.
\<close>

theorem scan_bounds:
  assumes "0 \<le> limit"
  shows "\<exists>k new. collect R limit check s =
             (filter check (take k (history R (world s) (before s) (after s))), k) \<and>
           int k \<le> min (limit * 5) 5000 \<and>
           k \<le> length (history R (world s) (before s) (after s)) \<and>
           int (length (fst (collect R limit check s))) \<le> limit \<and>
           (int (length (fst (collect R limit check s))) = limit \<or>
            k = min (length (history R (world s) (before s) (after s)))
                    (nat (min (limit * 5) 5000))) \<and>
           (\<forall>j<k. int (length (filter check
               (take j (history R (world s) (before s) (after s))))) < limit) \<and>
           int (length (deleted (purge R now limit check s))) \<le>
             int (length (deleted s)) + limit \<and>
           purge R now limit check s =
             snd (delete_each R
               (old_msgs (now - BULK_DELETE_LIMIT)
                  (filter check (take k (history R (world s) (before s) (after s)))))
               (snd (bulk_delete R
                  (bulk_msgs (now - BULK_DELETE_LIMIT)
                     (filter check (take k (history R (world s) (before s) (after s)))))
                  (s\<lparr>trace := trace s @
                     [HistoryCall (min (limit * 5) 5000) (before s) (after s)]\<rparr>)))) \<and>
           trace (purge R now limit check s) =
             trace s @ HistoryCall (min (limit * 5) 5000) (before s) (after s) # new \<and>
           (\<forall>e\<in>set new.
              (\<exists>m r. e = DeleteCall m r \<and>
                 m \<in> set (filter check (take k (history R (world s) (before s) (after s))))) \<or>
              (\<exists>c r. e = BatchCall c r \<and>
                 set c \<subseteq> set (filter check (take k (history R (world s) (before s) (after s))))))"
proof -
  let ?H = "history R (world s) (before s) (after s)"
  from collect_bounds[OF assms, of R check s now] obtain k where
    k: "collect R limit check s = (filter check (take k ?H), k)"
       "int k \<le> min (limit * 5) 5000" "k \<le> length ?H"
       "int (length (fst (collect R limit check s))) \<le> limit"
       "int (length (fst (collect R limit check s))) = limit \<or>
            k = min (length ?H) (nat (min (limit * 5) 5000))"
       "\<forall>j<k. int (length (filter check (take j ?H))) < limit"
       "int (length (deleted (purge R now limit check s))) \<le> int (length (deleted s)) + limit"
    by blast
  have f: "fst (collect R limit check s) = filter check (take k ?H)" by (simp add: k(1))
  let ?msgs = "filter check (take k ?H)"
  let ?bulk = "bulk_msgs (now - BULK_DELETE_LIMIT) ?msgs"
  from purge_events[of R now limit check s] obtain new where
    n: "trace (purge R now limit check s) =
          trace s @ HistoryCall (min (limit * 5) 5000) (before s) (after s) # new"
       "\<forall>c r. BatchCall c r \<in> set new \<longrightarrow> c \<in> set (spec_chunks ?bulk)"
       "\<forall>m r. DeleteCall m r \<in> set new \<longrightarrow> m \<in> set ?msgs"
       "\<forall>e\<in>set new. (\<exists>m r. e = DeleteCall m r) \<or> (\<exists>c r. e = BatchCall c r)"
    unfolding f by blast
  have sub: "set c \<subseteq> set ?msgs" if "c \<in> set (spec_chunks ?bulk)" for c
  proof -
    from that have "set c \<subseteq> set (concat (spec_chunks ?bulk))" by auto
    then have "set c \<subseteq> set ?bulk" by (simp only: concat_spec_chunks)
    then show ?thesis by (auto simp: bulk_msgs_def)
  qed
  have ev: "\<forall>e\<in>set new.
              (\<exists>m r. e = DeleteCall m r \<and> m \<in> set ?msgs) \<or>
              (\<exists>c r. e = BatchCall c r \<and> set c \<subseteq> set ?msgs)"
  proof
    fix e assume e: "e \<in> set new"
    with n(4) consider m r where "e = DeleteCall m r" | c r where "e = BatchCall c r" by blast
    then show "(\<exists>m r. e = DeleteCall m r \<and> m \<in> set ?msgs) \<or>
              (\<exists>c r. e = BatchCall c r \<and> set c \<subseteq> set ?msgs)"
    proof cases
      case 1
      with e n(3) show ?thesis by blast
    next
      case 2
      with e n(2) have "c \<in> set (spec_chunks ?bulk)" by blast
      from sub[OF this] 2 show ?thesis by blast
    qed
  qed
  have pe: "purge R now limit check s =
             snd (delete_each R (old_msgs (now - BULK_DELETE_LIMIT) ?msgs)
               (snd (bulk_delete R ?bulk
                  (s\<lparr>trace := trace s @
                     [HistoryCall (min (limit * 5) 5000) (before s) (after s)]\<rparr>))))"
    using purge_eq[of R now limit check s] unfolding f .
  from k n(1) ev pe show ?thesis by blast
qed

text \<open>
  Ten messages in the history, all old on day 20. With limit 2 and the even identities as
  the predicate the scan stops after four messages and the purge deletes the two matches;
  with limit 1 and no match the scan stops at the ceiling of five.
\<close>

theorem scan_bounds_witness:
  "collect ninth_fails 2 (\<lambda>m. msg_id m mod 2 = 0) fresh = ([ten_msgs ! 1, ten_msgs ! 3], 4) \<and>
   collect ninth_fails 1 (\<lambda>m. False) fresh = ([], 5) \<and>
   trace (purge ninth_fails (20 * day) 2 (\<lambda>m. msg_id m mod 2 = 0) fresh) =
     [HistoryCall 10 None None, DeleteCall (ten_msgs ! 1) Ok, DeleteCall (ten_msgs ! 3) Ok]"
  using scan_bounds[of 2 ninth_fails "\<lambda>m. msg_id m mod 2 = 0" fresh "20 * day"]
  by (simp add: purge_def collect_def ninth_fails_def scripted_def fresh_def ChannelPurger_def
        ten_msgs_def day_def BULK_DELETE_LIMIT_def bulk_delete_Nil delete_single_def
        await_delete_def mk_msg_def bulk_msgs_def old_msgs_def Let_def)

subsection \<open>The age partition\<close>

text \<open>
  Claim C1. The cutoff of a purge is \<open>now\<close> minus fourteen days, one value for both
  partitions. Every matched message is in exactly one of the two partitions: in
  \<open>bulk_msgs\<close> iff it was created strictly after the cutoff, in \<open>old_msgs\<close> iff it was
  created at or before it. Each partition keeps the scan order (it is a subsequence of the
  matches). The purge hands the first to the batch deleter and the second to the
  individual deleter, so every batch call carries only messages created after the cutoff.
\<close>

theorem age_partition:
  fixes now :: timestamp and msgs :: "message list"
  defines "cutoff \<equiv> now - BULK_DELETE_LIMIT"
  shows "cutoff = now - 14 * (24 * 60 * 60 * 1000000) \<and>
     (\<forall>m\<in>set msgs.
        (m \<in> set (bulk_msgs cutoff msgs) \<longleftrightarrow> created_at m > cutoff) \<and>
        (m \<in> set (old_msgs cutoff msgs) \<longleftrightarrow> created_at m \<le> cutoff) \<and>
        (m \<in> set (bulk_msgs cutoff msgs) \<longleftrightarrow> m \<notin> set (old_msgs cutoff msgs))) \<and>
     set (bulk_msgs cutoff msgs) \<union> set (old_msgs cutoff msgs) = set msgs \<and>
     length (bulk_msgs cutoff msgs) + length (old_msgs cutoff msgs) = length msgs \<and>
     subseq (bulk_msgs cutoff msgs) msgs \<and> subseq (old_msgs cutoff msgs) msgs \<and>
     purge R now limit check s =
       snd (delete_each R (old_msgs cutoff (fst (collect R limit check s)))
         (snd (bulk_delete R (bulk_msgs cutoff (fst (collect R limit check s)))
            (s\<lparr>trace := trace s @
               [HistoryCall (min (limit * 5) 5000) (before s) (after s)]\<rparr>)))) \<and>
     (\<exists>new. trace (purge R now limit check s) =
          trace s @ HistoryCall (min (limit * 5) 5000) (before s) (after s) # new \<and>
        (\<forall>c r. BatchCall c r \<in> set new \<longrightarrow> (\<forall>m\<in>set c. created_at m > cutoff)))"
proof -
  have c: "cutoff = now - 14 * (24 * 60 * 60 * 1000000)"
    by (simp add: cutoff_def BULK_DELETE_LIMIT_def)
  have m: "\<forall>m\<in>set msgs.
        (m \<in> set (bulk_msgs cutoff msgs) \<longleftrightarrow> created_at m > cutoff) \<and>
        (m \<in> set (old_msgs cutoff msgs) \<longleftrightarrow> created_at m \<le> cutoff) \<and>
        (m \<in> set (bulk_msgs cutoff msgs) \<longleftrightarrow> m \<notin> set (old_msgs cutoff msgs))"
    by (auto simp: bulk_msgs_def old_msgs_def)
  have u: "set (bulk_msgs cutoff msgs) \<union> set (old_msgs cutoff msgs) = set msgs"
    by (auto simp: bulk_msgs_def old_msgs_def)
  have sb: "subseq (bulk_msgs cutoff msgs) msgs" "subseq (old_msgs cutoff msgs) msgs"
    by (simp_all add: bulk_msgs_def old_msgs_def)
  from purge_events[of R now limit check s] obtain new where
    n: "trace (purge R now limit check s) =
          trace s @ HistoryCall (min (limit * 5) 5000) (before s) (after s) # new"
       "\<forall>c r. BatchCall c r \<in> set new \<longrightarrow>
          c \<in> set (spec_chunks (bulk_msgs cutoff (fst (collect R limit check s))))"
    unfolding cutoff_def by blast
  have "\<forall>c r. BatchCall c r \<in> set new \<longrightarrow> (\<forall>m\<in>set c. created_at m > cutoff)"
  proof (intro allI impI ballI)
    fix c r m assume "BatchCall c r \<in> set new" "m \<in> set c"
    with n(2) have "m \<in> set (concat (spec_chunks (bulk_msgs cutoff (fst (collect R limit check s)))))"
      by auto
    then have "m \<in> set (bulk_msgs cutoff (fst (collect R limit check s)))"
      by (simp only: concat_spec_chunks)
    then show "created_at m > cutoff" by (simp add: bulk_msgs_def)
  qed
  with n(1) have t: "\<exists>new. trace (purge R now limit check s) =
          trace s @ HistoryCall (min (limit * 5) 5000) (before s) (after s) # new \<and>
        (\<forall>c r. BatchCall c r \<in> set new \<longrightarrow> (\<forall>m\<in>set c. created_at m > cutoff))"
    by blast
  from c m u partition_lengths[of cutoff msgs] sb purge_eq[of R now limit check s] t
  show ?thesis unfolding cutoff_def by blast
qed

text \<open>The message created exactly at the cutoff is in the old partition.\<close>

theorem age_partition_witness:
  "bulk_msgs (20 * day - BULK_DELETE_LIMIT) boundary_msgs = [boundary_msgs ! 0, boundary_msgs ! 3] \<and>
   old_msgs (20 * day - BULK_DELETE_LIMIT) boundary_msgs = [boundary_msgs ! 1, boundary_msgs ! 2] \<and>
   created_at (boundary_msgs ! 1) = 20 * day - BULK_DELETE_LIMIT"
  using age_partition[of "20 * day" boundary_msgs]
  by (simp add: bulk_msgs_def old_msgs_def boundary_msgs_def mk_msg_def day_def
      BULK_DELETE_LIMIT_def)

subsection \<open>The outcome\<close>

lemma subseq_distinct: "distinct ys \<Longrightarrow> subseq xs ys \<Longrightarrow> distinct xs"
  by (auto simp: subseq_conv_nths)

lemma partition_distinct_ids_after:
  assumes "distinct (map msg_id (xs @ msgs))"
  shows "distinct (map msg_id (xs @ bulk_msgs c msgs @ old_msgs c msgs))"
proof -
  from assms have d: "distinct (xs @ msgs)" and i: "inj_on msg_id (set (xs @ msgs))"
    by (simp_all only: distinct_map)
  have "distinct (xs @ bulk_msgs c msgs @ old_msgs c msgs)"
    using d unfolding bulk_msgs_def old_msgs_def by auto
  moreover have "inj_on msg_id (set (xs @ bulk_msgs c msgs @ old_msgs c msgs))"
    by (rule inj_on_subset[OF i]) (auto simp: bulk_msgs_def old_msgs_def)
  ultimately show ?thesis by (simp only: distinct_map)
qed

lemma delete_each_prefix: "prefix (deleted st) (deleted (snd (delete_each R ms st)))"
proof -
  obtain ok s' where r: "delete_each R ms st = (ok, s')" by (cases "delete_each R ms st")
  from delete_each_shape[OF r] show ?thesis unfolding r by auto
qed

lemma bulk_chunk_prefix: "prefix (deleted st) (deleted (snd (bulk_chunk R c st)))"
proof -
  obtain ok s' where r: "bulk_chunk R c st = (ok, s')" by (cases "bulk_chunk R c st")
  from bulk_chunk_shape[OF r] show ?thesis unfolding r by auto
qed

lemma bulk_delete_prefix: "prefix (deleted st) (deleted (snd (bulk_delete R ms st)))"
proof -
  obtain ok s' where r: "bulk_chunks R (spec_chunks ms) st = (ok, s')"
    by (cases "bulk_chunks R (spec_chunks ms) st")
  from bulk_chunks_events[OF r] show ?thesis unfolding bulk_delete_chunks r by auto
qed

lemma purge_prefix: "prefix (deleted st) (deleted (purge R now limit check st))"
  using purge_events[of R now limit check st] by auto

lemma named_simps [simp]:
  "named [] = {}"
  "named (e # es) = set (targets e) \<union> named es"
  "named (xs @ ys) = named xs \<union> named ys"
  by (simp_all add: named_def)

lemma acks_subset: "set (acks e) \<subseteq> set (targets e)"
  by (cases e) auto

lemma completed_append:
  "named xs \<inter> named ys = {} \<Longrightarrow> completed (xs @ ys) = completed xs @ completed ys"
proof (induction xs)
  case Nil
  then show ?case by simp
next
  case (Cons e xs)
  from Cons.prems have d: "named xs \<inter> named ys = {}" and t: "set (targets e) \<inter> named ys = {}"
    by auto
  have "filter (\<lambda>m. m \<notin> named (xs @ ys)) (acks e) = filter (\<lambda>m. m \<notin> named xs) (acks e)"
    using t acks_subset[of e] by (intro filter_cong) auto
  with Cons.IH[OF d] show ?case by simp
qed

lemma named_singles:
  assumes "\<not> b \<longrightarrow> k < length ms"
  shows "named (map2 DeleteCall (take k ms) rs @ (if b then [] else [DeleteCall (ms ! k) HTTPError]))
           \<subseteq> set ms"
proof -
  have "named (map2 DeleteCall xs rs) \<subseteq> set xs" for xs :: "message list" and rs
  proof (induction xs arbitrary: rs)
    case Nil
    then show ?case by simp
  next
    case (Cons x xs)
    then show ?case by (cases rs) auto
  qed
  from this[of "take k ms" rs] have "named (map2 DeleteCall (take k ms) rs) \<subseteq> set ms"
    using set_take_subset[of k ms] by blast
  with assms show ?thesis by auto
qed

lemma completed_singles:
  assumes "distinct ms" "length rs = k" "k \<le> length ms" "HTTPError \<notin> set rs"
      and "\<not> b \<longrightarrow> k < length ms"
  shows "completed (map2 DeleteCall (take k ms) rs @
            (if b then [] else [DeleteCall (ms ! k) HTTPError])) = take k ms"
  using assms
proof (induction ms arbitrary: k rs)
  case Nil
  then show ?case by simp
next
  case (Cons m ms)
  show ?case
  proof (cases k)
    case 0
    with Cons.prems show ?thesis by simp
  next
    case (Suc k')
    with Cons.prems obtain r rs' where rs: "rs = r # rs'" "length rs' = k'" by (cases rs) auto
    define rest where
      "rest = map2 DeleteCall (take k' ms) rs' @ (if b then [] else [DeleteCall (ms ! k') HTTPError])"
    from Cons.prems Suc rs have p: "distinct ms" "k' \<le> length ms" "HTTPError \<notin> set rs'"
      "\<not> b \<longrightarrow> k' < length ms" "r \<noteq> HTTPError" "m \<notin> set ms"
      by auto
    have ev: "map2 DeleteCall (take k (m # ms)) rs @
        (if b then [] else [DeleteCall ((m # ms) ! k) HTTPError]) = DeleteCall m r # rest"
      unfolding rest_def Suc rs(1) by simp
    from named_singles[OF p(4), of rs'] p(6) have nm: "m \<notin> named rest"
      unfolding rest_def by blast
    from Cons.IH[OF p(1) rs(2) p(2,3,4)] have ih: "completed rest = take k' ms"
      unfolding rest_def .
    show ?thesis
      unfolding ev using nm ih p(5) Suc by simp
  qed
qed

lemma delete_each_completed:
  assumes "distinct ms" "delete_each R ms s = (ok, s')"
  shows "\<exists>new. trace s' = trace s @ new \<and> deleted s' = deleted s @ completed new \<and>
           named new \<subseteq> set ms"
proof -
  from delete_each_shape[OF assms(2)] obtain k rs where
    k: "k \<le> length ms" "length rs = k" "HTTPError \<notin> set rs"
       "deleted s' = deleted s @ take k ms"
       "trace s' = trace s @ map2 DeleteCall (take k ms) rs @
                    (if ok then [] else [DeleteCall (ms ! k) HTTPError])"
       "ok \<longleftrightarrow> k = length ms"
    by blast
  from k(1,6) have b: "\<not> ok \<longrightarrow> k < length ms" by auto
  from completed_singles[OF assms(1) k(2,1,3) b] named_singles[OF b, of rs] k(4,5)
  show ?thesis by auto
qed

lemma bulk_chunk_completed:
  assumes "distinct c" "bulk_chunk R c s = (ok, s')"
  shows "\<exists>new. trace s' = trace s @ new \<and> deleted s' = deleted s @ completed new \<and>
           named new \<subseteq> set c"
proof -
  have ft: "set (targets (first_call R c (world s))) \<subseteq> set c"
    by (auto simp: first_call_def)
  show ?thesis
  proof (cases "first_resp R c (world s) = Ok")
    case True
    with assms(2) have s': "s' = (after_first R c s)\<lparr>deleted := deleted s @ c\<rparr>"
      by (simp add: bulk_chunk_eq)
    have "acks (first_call R c (world s)) = c"
    proof (cases "length c = 1")
      case one: True
      then obtain m where "c = [m]" by (cases c) auto
      with True show ?thesis by (simp add: first_call_def first_resp_def)
    next
      case False
      with True show ?thesis by (simp add: first_call_def first_resp_def)
    qed
    then have "completed [first_call R c (world s)] = c" by simp
    with ft show ?thesis
      unfolding s' by (intro exI[of _ "[first_call R c (world s)]"]) (simp add: after_first_def)
  next
    case False
    with assms(2) have run: "delete_each R c (after_first R c s) = (ok, s')"
      by (simp add: bulk_chunk_eq)
    from delete_each_shape[OF run] obtain k rs where
      k: "k \<le> length c" "length rs = k" "HTTPError \<notin> set rs"
         "deleted s' = deleted (after_first R c s) @ take k c"
         "trace s' = trace (after_first R c s) @ map2 DeleteCall (take k c) rs @
                    (if ok then [] else [DeleteCall (c ! k) HTTPError])"
         "ok \<longleftrightarrow> k = length c"
      by blast
    define fb where
      "fb = map2 DeleteCall (take k c) rs @ (if ok then [] else [DeleteCall (c ! k) HTTPError])"
    from k(1,6) have b: "\<not> ok \<longrightarrow> k < length c" by auto
    have cf: "completed fb = take k c"
      unfolding fb_def by (rule completed_singles[OF assms(1) k(2,1,3) b])
    have nf: "named fb \<subseteq> set c"
      unfolding fb_def by (rule named_singles[OF b])
    have filt: "filter (\<lambda>m. m \<notin> named fb) (acks (first_call R c (world s))) = []"
    proof (cases "length c = 1")
      case one: True
      then obtain m where c: "c = [m]" by (cases c) auto
      have "m \<in> named fb"
      proof (cases k)
        case 0
        with k(6) c show ?thesis by (simp add: fb_def)
      next
        case (Suc k')
        with k(1,2) c obtain r where "rs = [r]" "k = 1" by (cases rs) auto
        with c show ?thesis by (simp add: fb_def)
      qed
      with c show ?thesis by (simp add: first_call_def)
    next
      case many: False
      with False show ?thesis by (simp add: first_call_def first_resp_def)
    qed
    have "completed (first_call R c (world s) # fb) = take k c"
      using filt cf by simp
    moreover have "trace s' = trace s @ first_call R c (world s) # fb"
      using k(5) by (simp add: after_first_def fb_def)
    moreover have "deleted s' = deleted s @ take k c"
      using k(4) by (simp add: after_first_def)
    moreover have "named (first_call R c (world s) # fb) \<subseteq> set c"
      using ft nf by simp
    ultimately show ?thesis
      by (intro exI[of _ "first_call R c (world s) # fb"]) simp
  qed
qed

lemma bulk_chunks_completed:
  "distinct (concat cs) \<Longrightarrow> bulk_chunks R cs s = (ok, s') \<Longrightarrow>
     \<exists>new. trace s' = trace s @ new \<and> deleted s' = deleted s @ completed new \<and>
       named new \<subseteq> set (concat cs)"
proof (induction cs arbitrary: s)
  case Nil
  then show ?case by auto
next
  case (Cons c cs)
  from Cons.prems(1) have d: "distinct c" "distinct (concat cs)" "set c \<inter> set (concat cs) = {}"
    by auto
  obtain ok1 s1 where c1: "bulk_chunk R c s = (ok1, s1)" by (cases "bulk_chunk R c s")
  from bulk_chunk_completed[OF d(1) c1] obtain n1 where
    1: "trace s1 = trace s @ n1" "deleted s1 = deleted s @ completed n1" "named n1 \<subseteq> set c"
    by blast
  show ?case
  proof (cases ok1)
    case False
    with Cons.prems(2) c1 have "s' = s1" by auto
    with 1 show ?thesis by (intro exI[of _ n1]) auto
  next
    case True
    with Cons.prems(2) c1 have "bulk_chunks R cs s1 = (ok, s')" by simp
    from Cons.IH[OF d(2) this] obtain n2 where
      2: "trace s' = trace s1 @ n2" "deleted s' = deleted s1 @ completed n2"
         "named n2 \<subseteq> set (concat cs)"
      by blast
    from 1(3) 2(3) d(3) have "named n1 \<inter> named n2 = {}" by blast
    then have "completed (n1 @ n2) = completed n1 @ completed n2" by (rule completed_append)
    with 1 2 show ?thesis by (intro exI[of _ "n1 @ n2"]) auto
  qed
qed

lemma bulk_delete_completed:
  assumes "distinct ms" "bulk_delete R ms s = (ok, s')"
  shows "\<exists>new. trace s' = trace s @ new \<and> deleted s' = deleted s @ completed new \<and>
           named new \<subseteq> set ms"
proof -
  have "distinct (concat (spec_chunks ms))" using assms(1) by (simp only: concat_spec_chunks)
  from bulk_chunks_completed[OF this assms(2)[unfolded bulk_delete_chunks]]
  show ?thesis by (simp only: concat_spec_chunks)
qed

lemma purge_completed:
  assumes "distinct (fst (collect R limit check s))"
  shows "\<exists>new. trace (purge R now limit check s) =
            trace s @ HistoryCall (min (limit * 5) 5000) (before s) (after s) # new \<and>
          deleted (purge R now limit check s) = deleted s @ completed new \<and>
          named new \<subseteq> set (fst (collect R limit check s))"
proof -
  let ?msgs = "fst (collect R limit check s)"
  let ?bulk = "bulk_msgs (now - BULK_DELETE_LIMIT) ?msgs"
  let ?old = "old_msgs (now - BULK_DELETE_LIMIT) ?msgs"
  let ?s0 = "s\<lparr>trace := trace s @ [HistoryCall (min (limit * 5) 5000) (before s) (after s)]\<rparr>"
  from assms have d: "distinct ?bulk" "distinct ?old" "set ?bulk \<inter> set ?old = {}"
    "set ?bulk \<subseteq> set ?msgs" "set ?old \<subseteq> set ?msgs"
    by (auto simp: bulk_msgs_def old_msgs_def)
  obtain okb s1 where b: "bulk_delete R ?bulk ?s0 = (okb, s1)"
    by (cases "bulk_delete R ?bulk ?s0")
  obtain oko s2 where o: "delete_each R ?old s1 = (oko, s2)"
    by (cases "delete_each R ?old s1")
  have p: "purge R now limit check s = s2"
    using b o by (simp add: purge_eq)
  from bulk_delete_completed[OF d(1) b] obtain n1 where
    1: "trace s1 = trace ?s0 @ n1" "deleted s1 = deleted ?s0 @ completed n1" "named n1 \<subseteq> set ?bulk"
    by blast
  from delete_each_completed[OF d(2) o] obtain n2 where
    2: "trace s2 = trace s1 @ n2" "deleted s2 = deleted s1 @ completed n2" "named n2 \<subseteq> set ?old"
    by blast
  from 1(3) 2(3) d(3) have "named n1 \<inter> named n2 = {}" by blast
  then have "completed (n1 @ n2) = completed n1 @ completed n2" by (rule completed_append)
  moreover from 1(3) 2(3) d(4,5) have "named (n1 @ n2) \<subseteq> set ?msgs" by auto
  ultimately show ?thesis
    unfolding p using 1(1,2) 2(1,2) by (intro exI[of _ "n1 @ n2"]) simp
qed

text \<open>
  Claim C6. Every operation of the purger only appends to \<open>deleted\<close>: the outcome before
  it is a prefix of the outcome after it, whatever the platform answers. When the history
  lists every message once (no two entries with the same identity, and none already in the
  outcome), no identity occurs twice in the outcome of the purge, and the outcome is the
  outcome at entry followed by exactly the completed deletions of the calls the purge made,
  in the order of those calls: a message whose deletion was acknowledged stays in the
  returned outcome whatever fails later, and the order of the outcome is the order in which
  the deletions completed. The same holds for the two deleters on any list without
  repetition, so it holds after each phase of the purge. The outcome is a prefix of the
  recent partition followed by a prefix of the old partition, each in scan order.
\<close>

theorem outcome_append_only:
  assumes "distinct (map msg_id (deleted s @ history R (world s) (before s) (after s)))"
  shows "prefix (deleted st) (deleted (snd (delete_single R m st))) \<and>
     prefix (deleted st) (deleted (snd (delete_each R ms st))) \<and>
     prefix (deleted st) (deleted (snd (bulk_chunk R ms st))) \<and>
     prefix (deleted st) (deleted (snd (bulk_delete R ms st))) \<and>
     prefix (deleted st) (deleted (purge R now limit check st)) \<and>
     distinct (map msg_id (deleted (purge R now limit check s))) \<and>
     (\<exists>d1 d2. deleted (purge R now limit check s) = deleted s @ d1 @ d2 \<and>
        prefix d1 (bulk_msgs (now - BULK_DELETE_LIMIT) (fst (collect R limit check s))) \<and>
        prefix d2 (old_msgs (now - BULK_DELETE_LIMIT) (fst (collect R limit check s)))) \<and>
     (\<exists>new. trace (purge R now limit check s) = trace s @ new \<and>
        deleted (purge R now limit check s) = deleted s @ completed new) \<and>
     (distinct ms \<longrightarrow>
        (\<exists>new. trace (snd (delete_each R ms st)) = trace st @ new \<and>
           deleted (snd (delete_each R ms st)) = deleted st @ completed new) \<and>
        (\<exists>new. trace (snd (bulk_delete R ms st)) = trace st @ new \<and>
           deleted (snd (bulk_delete R ms st)) = deleted st @ completed new))"
proof -
  let ?H = "history R (world s) (before s) (after s)"
  let ?msgs = "fst (collect R limit check s)"
  let ?bulk = "bulk_msgs (now - BULK_DELETE_LIMIT) ?msgs"
  let ?old = "old_msgs (now - BULK_DELETE_LIMIT) ?msgs"
  have p1: "prefix (deleted st) (deleted (snd (delete_single R m st)))"
    by (simp add: delete_single_eq Let_def)
  from purge_events[of R now limit check s] obtain d1 d2 where
    d: "deleted (purge R now limit check s) = deleted s @ d1 @ d2"
       "prefix d1 ?bulk" "prefix d2 ?old"
    by blast
  have "subseq (deleted s @ ?msgs) (deleted s @ ?H)"
    by (intro list_emb_append_mono subseq_order.order_refl collect_subseq)
  then have "subseq (map msg_id (deleted s @ ?msgs)) (map msg_id (deleted s @ ?H))"
    by (rule subseq_map)
  with assms have dm: "distinct (map msg_id (deleted s @ ?msgs))"
    by (rule subseq_distinct)
  then have dd: "distinct (map msg_id (deleted s @ ?bulk @ ?old))"
    by (rule partition_distinct_ids_after)
  have "subseq (deleted s @ d1 @ d2) (deleted s @ ?bulk @ ?old)"
    by (intro list_emb_append_mono subseq_order.order_refl prefix_imp_subseq d(2,3))
  then have "subseq (map msg_id (deleted s @ d1 @ d2)) (map msg_id (deleted s @ ?bulk @ ?old))"
    by (rule subseq_map)
  with dd have "distinct (map msg_id (deleted s @ d1 @ d2))"
    by (rule subseq_distinct)
  then have dist: "distinct (map msg_id (deleted (purge R now limit check s)))"
    by (simp only: d(1))
  from dm have "distinct (deleted s @ ?msgs)" by (simp only: distinct_map)
  then have "distinct ?msgs" by simp
  from purge_completed[OF this, of now] obtain new where
    n: "trace (purge R now limit check s) =
            trace s @ HistoryCall (min (limit * 5) 5000) (before s) (after s) # new"
       "deleted (purge R now limit check s) = deleted s @ completed new"
    by blast
  have "completed (HistoryCall (min (limit * 5) 5000) (before s) (after s) # new) = completed new"
    by simp
  with n have c: "\<exists>new. trace (purge R now limit check s) = trace s @ new \<and>
        deleted (purge R now limit check s) = deleted s @ completed new"
    by metis
  have e: "\<exists>new. trace (snd (delete_each R ms st)) = trace st @ new \<and>
           deleted (snd (delete_each R ms st)) = deleted st @ completed new"
    if "distinct ms"
  proof -
    obtain ok s' where r: "delete_each R ms st = (ok, s')" by (cases "delete_each R ms st")
    from delete_each_completed[OF that r] show ?thesis unfolding r by auto
  qed
  have b: "\<exists>new. trace (snd (bulk_delete R ms st)) = trace st @ new \<and>
           deleted (snd (bulk_delete R ms st)) = deleted st @ completed new"
    if "distinct ms"
  proof -
    obtain ok s' where r: "bulk_delete R ms st = (ok, s')" by (cases "bulk_delete R ms st")
    from bulk_delete_completed[OF that r] show ?thesis unfolding r by auto
  qed
  from p1 delete_each_prefix[of st R ms] bulk_chunk_prefix[of st R ms]
    bulk_delete_prefix[of st R ms] purge_prefix[of st R now limit check] dist d c e b
  show ?thesis by blast
qed

text \<open>
  A purge with failures on the way: the batch call fails, the first recent message is
  deleted in the fallback, the second fails hard; the two old messages follow. The message
  deleted before the failure stays in the outcome, and the outcome is what the trace
  acknowledges, in its order.
\<close>

theorem outcome_append_only_witness:
  "trace (purge second_fails_mixed (20 * day) 4 (\<lambda>_. True) fresh) =
     [HistoryCall 20 None None, BatchCall (take 2 mixed_msgs) HTTPError,
      DeleteCall (mixed_msgs ! 0) Ok, DeleteCall (mixed_msgs ! 1) HTTPError,
      DeleteCall (mixed_msgs ! 2) Ok, DeleteCall (mixed_msgs ! 3) Ok] \<and>
   deleted (purge second_fails_mixed (20 * day) 4 (\<lambda>_. True) fresh) =
     [mixed_msgs ! 0, mixed_msgs ! 2, mixed_msgs ! 3] \<and>
   completed (trace (purge second_fails_mixed (20 * day) 4 (\<lambda>_. True) fresh)) =
     [mixed_msgs ! 0, mixed_msgs ! 2, mixed_msgs ! 3] \<and>
   distinct (map msg_id (deleted (purge second_fails_mixed (20 * day) 4 (\<lambda>_. True) fresh)))"
proof -
  let ?R = second_fails_mixed
  let ?s0 = "fresh\<lparr>trace := trace fresh @ [HistoryCall (min (4 * 5) 5000) (before fresh) (after fresh)]\<rparr>"
  let ?s1 = "fresh\<lparr>world := 3, trace := [HistoryCall 20 None None,
      BatchCall (take 2 mixed_msgs) HTTPError, DeleteCall (mixed_msgs ! 0) Ok,
      DeleteCall (mixed_msgs ! 1) HTTPError],
      deleted := [mixed_msgs ! 0]\<rparr>"
  let ?s2 = "fresh\<lparr>world := 5, trace := [HistoryCall 20 None None,
      BatchCall (take 2 mixed_msgs) HTTPError, DeleteCall (mixed_msgs ! 0) Ok,
      DeleteCall (mixed_msgs ! 1) HTTPError,
      DeleteCall (mixed_msgs ! 2) Ok, DeleteCall (mixed_msgs ! 3) Ok],
      deleted := [mixed_msgs ! 0, mixed_msgs ! 2, mixed_msgs ! 3]\<rparr>"
  have h: "distinct (map msg_id (deleted fresh @ history ?R (world fresh) (before fresh) (after fresh)))"
    by (simp add: second_fails_mixed_def scripted_def fresh_def ChannelPurger_def
        mixed_msgs_def mk_msg_def)
  have c: "fst (collect ?R 4 (\<lambda>_. True) fresh) = mixed_msgs"
    by (simp add: collect_def second_fails_mixed_def scripted_def fresh_def ChannelPurger_def
        mixed_msgs_def)
  have b: "bulk_msgs (20 * day - BULK_DELETE_LIMIT) mixed_msgs = take 2 mixed_msgs"
    and ol: "old_msgs (20 * day - BULK_DELETE_LIMIT) mixed_msgs = drop 2 mixed_msgs"
    by (simp_all add: bulk_msgs_def old_msgs_def mixed_msgs_def mk_msg_def day_def
        BULK_DELETE_LIMIT_def)
  have ch: "bulk_chunk ?R (take 2 mixed_msgs) ?s0 = (False, ?s1)"
    by (simp add: bulk_chunk_def await_delete_messages_def delete_single_def await_delete_def
      second_fails_mixed_def scripted_def mixed_msgs_def fresh_def ChannelPurger_def mk_msg_def)
  have bd: "bulk_delete ?R (take 2 mixed_msgs) ?s0 = (False, ?s1)"
  proof -
    have "spec_chunks (take 2 mixed_msgs) = [take 2 mixed_msgs]"
      by (rule spec_chunks_one) (simp_all add: mixed_msgs_def)
    then show ?thesis
      by (simp only: bulk_delete_chunks bulk_chunks.simps ch) simp
  qed
  have de: "snd (delete_each ?R (drop 2 mixed_msgs) ?s1) = ?s2"
    by (simp add: delete_single_def await_delete_def
      second_fails_mixed_def scripted_def mixed_msgs_def fresh_def ChannelPurger_def mk_msg_def)
  have p: "purge ?R (20 * day) 4 (\<lambda>_. True) fresh = ?s2"
    unfolding purge_eq c b ol bd by (simp only: snd_conv de)
  have t: "trace ?s2 = [HistoryCall 20 None None,
      BatchCall (take 2 mixed_msgs) HTTPError, DeleteCall (mixed_msgs ! 0) Ok,
      DeleteCall (mixed_msgs ! 1) HTTPError,
      DeleteCall (mixed_msgs ! 2) Ok, DeleteCall (mixed_msgs ! 3) Ok]"
    and dl: "deleted ?s2 = [mixed_msgs ! 0, mixed_msgs ! 2, mixed_msgs ! 3]"
    by simp_all
  have cm: "completed (trace ?s2) = [mixed_msgs ! 0, mixed_msgs ! 2, mixed_msgs ! 3]"
    unfolding t by (simp add: named_def mixed_msgs_def mk_msg_def)
  from outcome_append_only[OF h, where now = "20 * day" and limit = 4 and check = "\<lambda>_. True"
      and ms = "take 2 mixed_msgs" and st = fresh and m = "mixed_msgs ! 0"]
  have "distinct (map msg_id (deleted (purge ?R (20 * day) 4 (\<lambda>_. True) fresh)))"
    by blast
  with t dl cm show ?thesis unfolding p by (simp only:) 
qed

subsection \<open>Validation\<close>

lemma trace_prepare:
  "\<exists>pre. trace (prepare R c e) = trace e @ pre \<and>
     (\<forall>ev\<in>set pre. ev = Defer \<or> (\<exists>r. ev = DeleteCall (ctx_message c) r))"
  by (auto simp: prepare_def await_delete_eq)

lemma trace_send_result:
  "\<exists>ev. trace (send_result pm dl e) = trace e @ [ev] \<and> world (send_result pm dl e) = world e \<and>
     ((\<exists>t. ev = Send t) \<or> (\<exists>d b. ev = SendEmbed d b))"
  by (auto simp: send_result_def Let_def)

text \<open>
  Claim C7. For a limit below 1 or above 2000, \<^verbatim>\<open>_validate_and_purge\<close> does nothing but
  reply with the warning: the platform is left as it was and the trace gains that one
  reply, so there is no history call, no delete or batch call and no prompt, whatever the
  confirmation threshold is. For contrast, a limit in range above the threshold is
  prompted for first, and a limit in range that needs no confirmation or is confirmed
  reaches the scan.
\<close>

theorem invalid_limit_rejected:
  "(limit < 1 \<or> limit > 2000 \<longrightarrow>
      validate_and_purge R pm now answer c limit check fl bef aft confirm_threshold e =
        e\<lparr>trace := trace e @ [Reply '':warning: Limit must be between 1 and 2000.'']\<rparr>) \<and>
   (1 \<le> limit \<and> limit \<le> 2000 \<and> limit > confirm_threshold \<longrightarrow>
      (\<exists>rest. trace (validate_and_purge R pm now answer c limit check fl bef aft confirm_threshold e) =
         trace e @ Prompt (''Are you sure you want to purge up to **'' @ str_int limit @
                           ''** messages?'') # rest)) \<and>
   (1 \<le> limit \<and> limit \<le> 2000 \<and> (limit \<le> confirm_threshold \<or> answer = Some True) \<longrightarrow>
      (\<exists>b a. HistoryCall (min (limit * 5) 5000) b a \<in>
         set (trace (validate_and_purge R pm now answer c limit check fl bef aft confirm_threshold e))))"
proof (intro conjI impI)
  assume "limit < 1 \<or> limit > 2000"
  then show "validate_and_purge R pm now answer c limit check fl bef aft confirm_threshold e =
        e\<lparr>trace := trace e @ [Reply '':warning: Limit must be between 1 and 2000.'']\<rparr>"
    by (simp add: validate_and_purge_def)
next
  let ?P = "Prompt (''Are you sure you want to purge up to **'' @ str_int limit @ ''** messages?'')"
  let ?e1 = "e\<lparr>trace := trace e @ [?P]\<rparr>"
  assume a: "1 \<le> limit \<and> limit \<le> 2000 \<and> limit > confirm_threshold"
  show "\<exists>rest. trace (validate_and_purge R pm now answer c limit check fl bef aft confirm_threshold e) =
         trace e @ ?P # rest"
  proof (cases "answer = Some True")
    case False
    with a show ?thesis by (simp add: validate_and_purge_def Let_def)
  next
    case True
    let ?e2 = "prepare R c ?e1"
    let ?p = "purge R now limit check (make_purger ?e2 c fl bef aft)"
    from trace_prepare[of R c ?e1] obtain pre where pre: "trace ?e2 = trace ?e1 @ pre" by blast
    from purge_events[of R now limit check "make_purger ?e2 c fl bef aft"] obtain new where
      new: "trace ?p = trace (make_purger ?e2 c fl bef aft) @ new" by auto
    have mp: "trace (make_purger ?e2 c fl bef aft) = trace ?e2"
      by (simp add: make_purger_def ChannelPurger_def Let_def)
    from trace_send_result[of pm "deleted ?p" "env.truncate ?p"] obtain ev where
      ev: "trace (send_result pm (deleted ?p) (env.truncate ?p)) = trace (env.truncate ?p) @ [ev]"
      by blast
    have tr: "trace (env.truncate ?p) = trace ?p" by (simp add: env.truncate_def)
    from a True have "validate_and_purge R pm now answer c limit check fl bef aft confirm_threshold e =
        send_result pm (deleted ?p) (env.truncate ?p)"
      by (simp add: validate_and_purge_def Let_def)
    with ev tr new mp pre show ?thesis by simp
  qed
next
  assume a: "1 \<le> limit \<and> limit \<le> 2000 \<and> (limit \<le> confirm_threshold \<or> answer = Some True)"
  let ?P = "Prompt (''Are you sure you want to purge up to **'' @ str_int limit @ ''** messages?'')"
  let ?e1 = "if limit > confirm_threshold then e\<lparr>trace := trace e @ [?P]\<rparr> else e"
  let ?e2 = "prepare R c ?e1"
  let ?p = "purge R now limit check (make_purger ?e2 c fl bef aft)"
  from purge_events[of R now limit check "make_purger ?e2 c fl bef aft"] obtain new b a0 where
    new: "trace ?p = trace (make_purger ?e2 c fl bef aft) @ HistoryCall (min (limit * 5) 5000) b a0 # new"
    by blast
  from trace_send_result[of pm "deleted ?p" "env.truncate ?p"] obtain ev where
    ev: "trace (send_result pm (deleted ?p) (env.truncate ?p)) = trace (env.truncate ?p) @ [ev]"
    by blast
  have tr: "trace (env.truncate ?p) = trace ?p" by (simp add: env.truncate_def)
  from a have "validate_and_purge R pm now answer c limit check fl bef aft confirm_threshold e =
        send_result pm (deleted ?p) (env.truncate ?p)"
    by (auto simp: validate_and_purge_def Let_def)
  with ev tr new show "\<exists>b a. HistoryCall (min (limit * 5) 5000) b a \<in>
         set (trace (validate_and_purge R pm now answer c limit check fl bef aft confirm_threshold e))"
    by (intro exI[of _ b] exI[of _ a0]) simp
qed

text \<open>Limits 3000 and 0, with a threshold of 100 and a platform ready to answer.\<close>

theorem invalid_limit_rejected_witness:
  "validate_and_purge ninth_fails (\<lambda>n. []) (20 * day) (Some True) invoking 3000 (\<lambda>_. True)
      None None None 100 \<lparr>world = 0, trace = []\<rparr> =
     \<lparr>world = 0, trace = [Reply '':warning: Limit must be between 1 and 2000.'']\<rparr> \<and>
   validate_and_purge ninth_fails (\<lambda>n. []) (20 * day) (Some True) invoking 0 (\<lambda>_. True)
      None None None 100 \<lparr>world = 0, trace = []\<rparr> =
     \<lparr>world = 0, trace = [Reply '':warning: Limit must be between 1 and 2000.'']\<rparr>"
  using invalid_limit_rejected[of 3000 ninth_fails "\<lambda>n. []" "20 * day" "Some True" invoking
      "\<lambda>_. True" None None None 100 "\<lparr>world = 0, trace = []\<rparr>"]
    invalid_limit_rejected[of 0 ninth_fails "\<lambda>n. []" "20 * day" "Some True" invoking
      "\<lambda>_. True" None None None 100 "\<lparr>world = 0, trace = []\<rparr>"]
  by simp

subsection \<open>The report\<close>


























end
